theory Spec2Isabelle
  imports Complex_Main "HOL-Library.AList"
begin

section \<open>Python values used by the scripts\<close>

text \<open>
  The three scripts (\<^verbatim>\<open>updated_failure_scenarios.py\<close>,
  \<^verbatim>\<open>balanced_failure_scenarios.py\<close>, \<^verbatim>\<open>visualize_with_depot_placement.py\<close>)
  work on text lines, on a networkx graph and on Python sets. Strings are modelled as
  \<open>string\<close> over ASCII, Python integers as \<open>int\<close>, floats as \<open>real\<close>
  (exact arithmetic; rounding, infinities and NaN are outside the model), and every
  exception the code can raise as a value of \<open>py_error\<close>.
\<close>

datatype py_error =
    CapacityNotFound   \<comment> \<open>\<^verbatim>\<open>ValueError('VEHICLE CAPACITY not found in file')\<close>\<close>
  | ValueError         \<comment> \<open>any other \<^verbatim>\<open>ValueError\<close>: \<^verbatim>\<open>int()\<close>, \<^verbatim>\<open>float()\<close>, tuple unpacking\<close>
  | IndexError
  | KeyError
  | NodeNotFound       \<comment> \<open>networkx: the source is not a node of the graph\<close>
  | ContradictoryPaths \<comment> \<open>networkx: \<^verbatim>\<open>ValueError('Contradictory paths found:', 'negative weights?')\<close>\<close>
  | ZeroDivisionError

subsection \<open>Strings\<close>

text \<open>The ASCII characters for which \<^verbatim>\<open>str.isspace\<close> holds; \<^verbatim>\<open>str.strip()\<close> removes them.\<close>

definition is_space :: "char \<Rightarrow> bool" where
  "is_space c = (c \<in> set [CHR '' '', CHR 0x09, CHR 0x0A, CHR 0x0B, CHR 0x0C, CHR 0x0D,
                            CHR 0x1C, CHR 0x1D, CHR 0x1E, CHR 0x1F])"

definition strip_chars :: "(char \<Rightarrow> bool) \<Rightarrow> string \<Rightarrow> string" where
  "strip_chars P s = rev (dropWhile P (rev (dropWhile P s)))"

definition strip :: "string \<Rightarrow> string" where
  "strip s = strip_chars is_space s"

definition startswith :: "string \<Rightarrow> string \<Rightarrow> bool" where
  "startswith s p = (take (length p) s = p)"


text \<open>
  \<open>find_first sep s\<close> is \<^verbatim>\<open>s.partition(sep)\<close>: the text before and after the first
  occurrence of \<open>sep\<close>, or \<open>None\<close> when there is none. Every separator the scripts use
  is a non-empty literal.
\<close>

fun find_first :: "string \<Rightarrow> string \<Rightarrow> (string \<times> string) option" where
  "find_first sep [] = (if sep = [] then Some ([], []) else None)"
| "find_first sep (c # cs) =
     (if startswith (c # cs) sep then Some ([], drop (length sep) (c # cs))
      else map_option (\<lambda>(b, a). (c # b, a)) (find_first sep cs))"

text \<open>\<^verbatim>\<open>sep in s\<close>.\<close>

definition contains :: "string \<Rightarrow> string \<Rightarrow> bool" where
  "contains s sep = (find_first sep s \<noteq> None)"

text \<open>\<^verbatim>\<open>s.split(sep, 1)\<close>.\<close>

definition split1 :: "string \<Rightarrow> string \<Rightarrow> string list" where
  "split1 sep s = (case find_first sep s of None \<Rightarrow> [s] | Some (b, a) \<Rightarrow> [b, a])"

text \<open>\<^verbatim>\<open>s.split(sep)\<close>: split at every occurrence, left to right.\<close>

function split_acc :: "string \<Rightarrow> string \<Rightarrow> string \<Rightarrow> string list" where
  "split_acc sep acc [] = [rev acc]"
| "split_acc sep acc (c # cs) =
     (if sep \<noteq> [] \<and> startswith (c # cs) sep
      then rev acc # split_acc sep [] (drop (length sep) (c # cs))
      else split_acc sep (c # acc) cs)"
  by pat_completeness auto
termination
  by (relation "measure (\<lambda>(sep, acc, s). length s)") auto

definition split :: "string \<Rightarrow> string \<Rightarrow> string list" where
  "split sep s = split_acc sep [] s"

text \<open>\<^verbatim>\<open>xs[1]\<close> on a list: \<^verbatim>\<open>IndexError\<close> when the list has fewer than two elements.\<close>

fun second :: "'a list \<Rightarrow> py_error + 'a" where
  "second (x # y # ys) = Inr y"
| "second _ = Inl IndexError"

subsection \<open>Integers to and from text\<close>

definition is_digit :: "char \<Rightarrow> bool" where
  "is_digit c = (c \<in> set ''0123456789'')"

definition digit_val :: "char \<Rightarrow> nat" where
  "digit_val c = of_char c - 48"


text \<open>
  The digits of \<^verbatim>\<open>int(s)\<close>: a non-empty run of digits in which single underscores
  may stand between two digits. \<open>prev\<close> says that the previous character was a digit.
\<close>

fun int_digits :: "bool \<Rightarrow> nat \<Rightarrow> string \<Rightarrow> nat option" where
  "int_digits prev acc [] = (if prev then Some acc else None)"
| "int_digits prev acc (c # cs) =
     (if is_digit c then int_digits True (10 * acc + digit_val c) cs
      else if c = CHR ''_'' \<and> prev then int_digits False acc cs
      else None)"

text \<open>\<^verbatim>\<open>int(s)\<close> in base 10: surrounding whitespace, an optional sign, the digits.\<close>

definition py_int :: "string \<Rightarrow> py_error + int" where
  "py_int s =
     (case strip s of
        [] \<Rightarrow> Inl ValueError
      | c # cs \<Rightarrow>
          if c = CHR ''-'' then
            (case int_digits False 0 cs of None \<Rightarrow> Inl ValueError | Some n \<Rightarrow> Inr (- int n))
          else if c = CHR ''+'' then
            (case int_digits False 0 cs of None \<Rightarrow> Inl ValueError | Some n \<Rightarrow> Inr (int n))
          else
            (case int_digits False 0 (c # cs) of None \<Rightarrow> Inl ValueError | Some n \<Rightarrow> Inr (int n)))"







section \<open>EdgeRebalancer: \<^verbatim>\<open>rebalance_required_edges\<close>\<close>










definition newline :: string where
  "newline = [CHR 0x0A]"







section \<open>The graph (networkx \<^verbatim>\<open>Graph\<close>)\<close>

text \<open>
  A networkx graph keeps an insertion-ordered dictionary from each node to the dictionary
  of its neighbours, whose values are the edges' attribute dictionaries; an undirected
  edge is stored under both endpoints. It is modelled as an association list of
  association lists; the node order is the order of the keys.
\<close>

text \<open>
  The attributes of an edge: \<^verbatim>\<open>weight\<close> and \<^verbatim>\<open>required\<close> are set by the parser on every
  edge, \<^verbatim>\<open>travel_time\<close> is absent until \<^verbatim>\<open>select_depots\<close> sets it.
\<close>

record edge_attr =
  weight :: real
  required :: bool
  travel_time :: "real option"

type_synonym graph = "(int \<times> (int \<times> edge_attr) list) list"

text \<open>\<^verbatim>\<open>G.nodes()\<close>, in iteration order.\<close>

definition nodes :: "graph \<Rightarrow> int list" where
  "nodes G = map fst G"

subsection \<open>Shortest paths within a cutoff\<close>

text \<open>
  Modelled from the spec: \<^verbatim>\<open>nx.single_source_dijkstra_path_length(G, source, cutoff, weight)\<close>
  is a function of the networkx library, which is not part of the repository. The spec
  describes it as the single-source shortest-path computation bounded by \<^verbatim>\<open>cutoff\<close>, of
  which the keys of the result are kept. The model follows the loop that computes it in
  networkx (\<^verbatim>\<open>_dijkstra_multisource\<close>): a dictionary \<^verbatim>\<open>dist\<close> of final distances, a
  dictionary \<^verbatim>\<open>seen\<close> of tentative ones, and a heap \<^verbatim>\<open>fringe\<close> of triples (distance,
  running counter, node), from which the least triple is popped.
\<close>

type_synonym heap_entry = "real \<times> nat \<times> int"

record dijkstra_state =
  dist :: "(int \<times> real) list"
  seen :: "(int \<times> real) list"
  fringe :: "heap_entry list"
  counter :: nat

text \<open>
  Python compares the triples lexicographically; the counters are all different, so the
  nodes are never compared.
\<close>

definition entry_less :: "heap_entry \<Rightarrow> heap_entry \<Rightarrow> bool" where
  "entry_less a b = (fst a < fst b \<or> (fst a = fst b \<and> fst (snd a) < fst (snd b)))"

fun heap_min :: "heap_entry \<Rightarrow> heap_entry list \<Rightarrow> heap_entry" where
  "heap_min x [] = x"
| "heap_min x (y # ys) = heap_min (if entry_less y x then y else x) ys"

definition heappop :: "heap_entry \<Rightarrow> heap_entry list \<Rightarrow> heap_entry \<times> heap_entry list" where
  "heappop x xs = (let m = heap_min x xs in (m, remove1 m (x # xs)))"

text \<open>\<^verbatim>\<open>seen[u] = vu_dist; push(fringe, (vu_dist, next(c), u))\<close>.\<close>

definition heappush :: "real \<Rightarrow> int \<Rightarrow> dijkstra_state \<Rightarrow> dijkstra_state" where
  "heappush d u st =
     st\<lparr>seen := AList.update u d (seen st),
        fringe := fringe st @ [(d, counter st, u)],
        counter := Suc (counter st)\<rparr>"

text \<open>The weight function for \<^verbatim>\<open>weight='travel_time'\<close>: \<^verbatim>\<open>data.get('travel_time', 1)\<close>.\<close>

definition edge_cost :: "edge_attr \<Rightarrow> real" where
  "edge_cost e = (case travel_time e of Some t \<Rightarrow> t | None \<Rightarrow> 1)"

text \<open>
  The loop over the neighbours \<open>u\<close> of the node \<open>v\<close> that was popped with distance
  \<open>d\<close>: a neighbour beyond the cutoff is skipped, a shorter path to a settled node
  raises, a new or shorter tentative distance is pushed.
\<close>

fun relax :: "real \<Rightarrow> real \<Rightarrow> (int \<times> edge_attr) list \<Rightarrow> dijkstra_state \<Rightarrow> py_error + dijkstra_state" where
  "relax cutoff d [] st = Inr st"
| "relax cutoff d ((u, e) # nbrs) st =
     (let vu_dist = d + edge_cost e in
      if vu_dist > cutoff then relax cutoff d nbrs st
      else
        (case map_of (dist st) u of
           Some u_dist \<Rightarrow>
             if vu_dist < u_dist then Inl ContradictoryPaths else relax cutoff d nbrs st
         | None \<Rightarrow>
             (case map_of (seen st) u of
                None \<Rightarrow> relax cutoff d nbrs (heappush vu_dist u st)
              | Some s \<Rightarrow>
                  if vu_dist < s then relax cutoff d nbrs (heappush vu_dist u st)
                  else relax cutoff d nbrs st)))"

text \<open>
  The measure for the termination of the main loop: the entries on the heap, and for
  every node that is not settled one more than the number of its neighbours.
\<close>

definition unsettled_work :: "graph \<Rightarrow> (int \<times> real) list \<Rightarrow> nat" where
  "unsettled_work G ds =
     sum_list (map (\<lambda>(k, nbrs). if k \<in> fst ` set ds then 0 else Suc (length nbrs)) G)"

lemma heap_min_mem: "heap_min x xs \<in> set (x # xs)"
  by (induction xs arbitrary: x) auto

lemma heappop_length: "heappop x xs = (m, rest) \<Longrightarrow> length rest = length xs"
  using heap_min_mem [of x xs]
  by (auto simp: heappop_def Let_def length_remove1 simp del: remove1.simps)

lemma relax_bound:
  "relax cutoff d nbrs st = Inr st' \<Longrightarrow>
   dist st' = dist st \<and> length (fringe st') \<le> length (fringe st) + length nbrs"
proof (induction nbrs arbitrary: st)
  case Nil
  then show ?case by simp
next
  case (Cons a nbrs)
  obtain u e where a: "a = (u, e)" by (cases a)
  from Cons.prems consider
      "relax cutoff d nbrs st = Inr st'"
    | "relax cutoff d nbrs (heappush (d + edge_cost e) u st) = Inr st'"
    unfolding a by (auto simp: Let_def split: if_splits option.splits)
  then show ?case
  proof cases
    case 1
    from Cons.IH [OF this] show ?thesis by simp
  next
    case 2
    from Cons.IH [OF this] show ?thesis by (simp add: heappush_def)
  qed
qed

lemma unsettled_work_settle:
  "map_of G v = Some nbrs \<Longrightarrow> v \<notin> fst ` set ds \<Longrightarrow>
   unsettled_work G (ds @ [(v, d)]) + Suc (length nbrs) \<le> unsettled_work G ds"
proof (induction G)
  case Nil
  then show ?case by simp
next
  case (Cons a G)
  obtain k nb where a: "a = (k, nb)" by (cases a)
  have mono: "unsettled_work G (ds @ [(v, d)]) \<le> unsettled_work G ds"
    unfolding unsettled_work_def by (rule sum_list_mono) (auto split: prod.splits)
  show ?case
  proof (cases "k = v")
    case True
    with Cons.prems a have "nb = nbrs" by simp
    with True a Cons.prems mono show ?thesis by (simp add: unsettled_work_def)
  next
    case False
    with Cons.prems a have "map_of G v = Some nbrs" by simp
    from Cons.IH [OF this Cons.prems(2)] a show ?thesis
      by (auto simp: unsettled_work_def)
  qed
qed

text \<open>
  \<^verbatim>\<open>while fringe:\<close> pop the least entry; a node that is settled already is skipped;
  otherwise it is settled and its neighbours are relaxed. \<^verbatim>\<open>G._adj[v]\<close> on a node without
  adjacency raises \<^verbatim>\<open>KeyError\<close>.
\<close>

function dijkstra_loop :: "graph \<Rightarrow> real \<Rightarrow> dijkstra_state \<Rightarrow> py_error + (int \<times> real) list" where
  "dijkstra_loop G cutoff st =
     (case fringe st of
        [] \<Rightarrow> Inr (dist st)
      | x # xs \<Rightarrow>
          (case heappop x xs of
             ((d, c, v), rest) \<Rightarrow>
               if v \<in> fst ` set (dist st) then dijkstra_loop G cutoff (st\<lparr>fringe := rest\<rparr>)
               else
                 (case map_of G v of
                    None \<Rightarrow> Inl KeyError
                  | Some nbrs \<Rightarrow>
                      (case relax cutoff d nbrs (st\<lparr>dist := dist st @ [(v, d)], fringe := rest\<rparr>) of
                         Inl e \<Rightarrow> Inl e
                       | Inr st' \<Rightarrow> dijkstra_loop G cutoff st'))))"
  by pat_completeness auto
termination
proof (relation "measure (\<lambda>(G, cutoff, st). length (fringe st) + unsettled_work G (dist st))")
  show "wf (measure (\<lambda>(G, cutoff, st). length (fringe st) + unsettled_work G (dist st)))"
    by simp
next
  fix G :: graph and cutoff :: real and st :: dijkstra_state
    and x xs xa rest y d ya c v
  assume "fringe st = x # xs" "(xa, rest) = heappop x xs"
  then show "((G, cutoff, st\<lparr>fringe := rest\<rparr>), G, cutoff, st)
       \<in> measure (\<lambda>(G, cutoff, st). length (fringe st) + unsettled_work G (dist st))"
    using heappop_length [of x xs xa rest] by simp
next
  fix G :: graph and cutoff :: real and st st' :: dijkstra_state
    and x xs xa rest y d ya c v nbrs
  assume fr: "fringe st = x # xs" and pop: "(xa, rest) = heappop x xs"
    and v: "v \<notin> fst ` set (dist st)" and nb: "map_of G v = Some nbrs"
    and rl: "relax cutoff d nbrs (st\<lparr>dist := dist st @ [(v, d)], fringe := rest\<rparr>) = Inr st'"
  from heappop_length [of x xs xa rest] pop have len: "length rest = length xs" by simp
  from relax_bound [OF rl] have ds: "dist st' = dist st @ [(v, d)]"
    and fl: "length (fringe st') \<le> length rest + length nbrs" by simp_all
  from unsettled_work_settle [OF nb v, of d] ds fr len fl
  show "((G, cutoff, st'), G, cutoff, st)
       \<in> measure (\<lambda>(G, cutoff, st). length (fringe st) + unsettled_work G (dist st))"
    by simp
qed


text \<open>The entry point: the source must be a node, and starts on the heap at distance 0.\<close>

definition single_source_dijkstra_path_length ::
  "graph \<Rightarrow> int \<Rightarrow> real \<Rightarrow> py_error + (int \<times> real) list" where
  "single_source_dijkstra_path_length G source cutoff =
     (if source \<notin> set (nodes G) then Inl NodeNotFound
      else dijkstra_loop G cutoff
             \<lparr>dist = [], seen = [(source, 0)], fringe = [(0, 0, source)], counter = 1\<rparr>)"

text \<open>
  The graphs on which the shortest-path loop cannot raise: every neighbour is a node, and
  no edge has a negative cost.
\<close>

definition well_formed :: "graph \<Rightarrow> bool" where
  "well_formed G =
     (\<forall>(u, nbrs) \<in> set G. \<forall>(v, e) \<in> set nbrs. v \<in> set (nodes G) \<and> 0 \<le> edge_cost e)"

subsection \<open>CoverageComputer: \<^verbatim>\<open>compute_coverage\<close>\<close>

text \<open>
  \<^verbatim>\<open>for node in G.nodes(): coverage[node] = set(lengths.keys())\<close>. A Python set that is built
  from a list is represented by that list and read through \<open>set\<close>.
\<close>

fun coverage_loop :: "graph \<Rightarrow> real \<Rightarrow> int list \<Rightarrow> py_error + (int \<times> int list) list" where
  "coverage_loop G radius [] = Inr []"
| "coverage_loop G radius (node # ns) =
     (case single_source_dijkstra_path_length G node radius of
        Inl e \<Rightarrow> Inl e
      | Inr lengths \<Rightarrow>
          (case coverage_loop G radius ns of
             Inl e \<Rightarrow> Inl e
           | Inr coverage \<Rightarrow> Inr ((node, map fst lengths) # coverage)))"

definition compute_coverage :: "graph \<Rightarrow> real \<Rightarrow> py_error + (int \<times> int list) list" where
  "compute_coverage G radius = coverage_loop G radius (nodes G)"

subsection \<open>GreedyDepotSelector: \<^verbatim>\<open>select_depots\<close> and \<^verbatim>\<open>select_depots_with_factor\<close>\<close>

text \<open>
  The inner \<^verbatim>\<open>for node in G.nodes()\<close> loop of one iteration, started with
  \<^verbatim>\<open>best_node, best_gain = None, -1\<close>. \<^verbatim>\<open>coverage[node]\<close> on a missing key raises
  \<^verbatim>\<open>KeyError\<close>.
\<close>

fun scan_best ::
  "(int \<times> int list) list \<Rightarrow> int set \<Rightarrow> int set \<Rightarrow> int list \<Rightarrow> int option \<times> int \<Rightarrow>
   py_error + (int option \<times> int)" where
  "scan_best coverage selected covered [] best = Inr best"
| "scan_best coverage selected covered (node # ns) (best_node, best_gain) =
     (if node \<in> selected then scan_best coverage selected covered ns (best_node, best_gain)
      else
        (case map_of coverage node of
           None \<Rightarrow> Inl KeyError
         | Some ks \<Rightarrow>
             (let gain = int (card (set ks - covered)) in
              if gain > best_gain then scan_best coverage selected covered ns (Some node, gain)
              else scan_best coverage selected covered ns (best_node, best_gain))))"

text \<open>
  The gain of a node in the scan: \<^verbatim>\<open>len(coverage[node] - covered)\<close>, for a node that has
  an entry in \<^verbatim>\<open>coverage\<close>.
\<close>

definition marginal_gain :: "(int \<times> int list) list \<Rightarrow> int set \<Rightarrow> int \<Rightarrow> int" where
  "marginal_gain coverage covered node =
     (case map_of coverage node of None \<Rightarrow> 0 | Some ks \<Rightarrow> int (card (set ks - covered)))"

lemma scan_best_node:
  "scan_best coverage selected covered ns (bn, bg) = Inr (Some b, g) \<Longrightarrow>
   bn = Some b \<or> (b \<in> set ns \<and> b \<notin> selected)"
  by (induction ns arbitrary: bn bg) (auto simp: Let_def split: if_splits option.splits)

text \<open>
  One iteration of the \<^verbatim>\<open>while\<close> loop after its test: the scan for the best node, then
  \<^verbatim>\<open>break\<close> (\<open>None\<close>) or the new \<^verbatim>\<open>selected\<close> and \<^verbatim>\<open>covered\<close>.
\<close>

definition greedy_body ::
  "int list \<Rightarrow> (int \<times> int list) list \<Rightarrow> int set \<Rightarrow> int set \<Rightarrow> py_error + (int set \<times> int set) option" where
  "greedy_body ns coverage selected covered =
     (case scan_best coverage selected covered ns (None, - 1) of
        Inl e \<Rightarrow> Inl e
      | Inr (None, g) \<Rightarrow> Inr None
      | Inr (Some best_node, g) \<Rightarrow>
          (case map_of coverage best_node of
             None \<Rightarrow> Inl KeyError
           | Some ks \<Rightarrow> Inr (Some (insert best_node selected, covered \<union> set ks))))"

lemma greedy_body_decreases:
  assumes "greedy_body ns coverage selected covered = Inr (Some (selected', covered'))"
  shows "card (set ns - selected') < card (set ns - selected)"
proof -
  from assms obtain b g where sc: "scan_best coverage selected covered ns (None, - 1) = Inr (Some b, g)"
    and sel: "selected' = insert b selected"
    by (auto simp: greedy_body_def split: sum.splits option.splits)
  from scan_best_node [OF sc] have "b \<in> set ns" "b \<notin> selected" by auto
  then show ?thesis unfolding sel by (intro psubset_card_mono) auto
qed

text \<open>
  The \<^verbatim>\<open>while covered != all_nodes\<close> loop. Besides the two sets the result records how
  many iterations ran and whether the loop was left by \<^verbatim>\<open>break\<close> (\<^verbatim>\<open>best_node is None\<close>).
\<close>

record greedy_result =
  selected_nodes :: "int set"
  covered_nodes :: "int set"
  iterations :: nat
  no_candidate :: bool

function greedy_loop ::
  "int list \<Rightarrow> (int \<times> int list) list \<Rightarrow> nat \<Rightarrow> int set \<Rightarrow> int set \<Rightarrow> py_error + greedy_result" where
  "greedy_loop ns coverage k selected covered =
     (if covered = set ns then
        Inr \<lparr>selected_nodes = selected, covered_nodes = covered, iterations = k, no_candidate = False\<rparr>
      else
        (case greedy_body ns coverage selected covered of
           Inl e \<Rightarrow> Inl e
         | Inr None \<Rightarrow>
             Inr \<lparr>selected_nodes = selected, covered_nodes = covered, iterations = k, no_candidate = True\<rparr>
         | Inr (Some (selected', covered')) \<Rightarrow> greedy_loop ns coverage (Suc k) selected' covered'))"
  by pat_completeness auto
termination
  by (relation "measure (\<lambda>(ns, coverage, k, selected, covered). card (set ns - selected))")
     (auto dest: greedy_body_decreases)

text \<open>
  \<^verbatim>\<open>for u, v, data in G.edges(data=True): data['travel_time'] = data.get('weight', 1.0)\<close>.
\<close>

definition annotate_travel_time :: "graph \<Rightarrow> graph" where
  "annotate_travel_time G =
     map (\<lambda>(u, nbrs). (u, map (\<lambda>(v, data). (v, data\<lparr>travel_time := Some (weight data)\<rparr>)) nbrs)) G"

text \<open>
  \<^verbatim>\<open>select_depots_with_factor\<close> (\<^verbatim>\<open>balanced_failure_scenarios.py\<close>) and \<^verbatim>\<open>select_depots\<close>
  (the other two scripts, with the radius \<^verbatim>\<open>battery_capacity / 2.0\<close>) compute the coverage
  and run the same loop; they return \<^verbatim>\<open>selected\<close>.
\<close>

definition select_depots_with_factor :: "graph \<Rightarrow> real \<Rightarrow> real \<Rightarrow> py_error + int set" where
  "select_depots_with_factor G battery_capacity factor =
     (let G' = annotate_travel_time G in
      if factor = 0 then Inl ZeroDivisionError
      else
        (case compute_coverage G' (battery_capacity / factor) of
           Inl e \<Rightarrow> Inl e
         | Inr coverage \<Rightarrow>
             (case greedy_loop (nodes G') coverage 0 {} {} of
                Inl e \<Rightarrow> Inl e
              | Inr r \<Rightarrow> Inr (selected_nodes r))))"


section \<open>ScenarioCodec: \<^verbatim>\<open>extract_weight\<close> and \<^verbatim>\<open>parse_text_file\<close>\<close>

subsection \<open>Building the graph\<close>

text \<open>\<^verbatim>\<open>G.add_nodes_from(range(1, num_vertices + 1))\<close>: a node that is present stays where it is.\<close>

definition add_node :: "int \<Rightarrow> graph \<Rightarrow> graph" where
  "add_node n G = (if n \<in> set (nodes G) then G else G @ [(n, [])])"

definition add_nodes_from :: "int list \<Rightarrow> graph \<Rightarrow> graph" where
  "add_nodes_from ns G = foldl (\<lambda>G n. add_node n G) G ns"

text \<open>\<^verbatim>\<open>G._adj[u][v] = data\<close> and \<^verbatim>\<open>G._adj[u].get(v)\<close>.\<close>

definition set_adj :: "int \<Rightarrow> int \<Rightarrow> edge_attr \<Rightarrow> graph \<Rightarrow> graph" where
  "set_adj u v data G = AList.map_entry u (AList.update v data) G"

definition edge_data :: "graph \<Rightarrow> int \<Rightarrow> int \<Rightarrow> edge_attr option" where
  "edge_data G u v = (case map_of G u of None \<Rightarrow> None | Some nbrs \<Rightarrow> map_of nbrs v)"

text \<open>
  \<^verbatim>\<open>G.add_edge(u, v, weight=w, required=r)\<close>: both endpoints become nodes, the attributes
  of an edge that exists are updated in place, and the edge is stored under both endpoints.
\<close>

definition add_edge :: "int \<Rightarrow> int \<Rightarrow> real \<Rightarrow> bool \<Rightarrow> graph \<Rightarrow> graph" where
  "add_edge u v w r G =
     (let G' = add_node v (add_node u G);
          datadict =
            (case edge_data G' u v of
               None \<Rightarrow> \<lparr>weight = w, required = r, travel_time = None\<rparr>
             | Some data \<Rightarrow> data\<lparr>weight := w, required := r\<rparr>)
      in set_adj v u datadict (set_adj u v datadict G'))"

subsection \<open>Weight extraction\<close>

text \<open>
  Python's \<^verbatim>\<open>float\<close> is a parameter \<open>to_float\<close> of the model (\<open>None\<close> when it raises
  \<^verbatim>\<open>ValueError\<close>). \<^verbatim>\<open>try: return float(s) except: return 1.0\<close> is:
\<close>

definition float_or_default :: "(string \<Rightarrow> real option) \<Rightarrow> string \<Rightarrow> real" where
  "float_or_default to_float s = (case to_float s of Some x \<Rightarrow> x | None \<Rightarrow> 1)"

text \<open>
  The three scripts each have their own \<^verbatim>\<open>extract_weight\<close>. The model returns the
  weight together with the lines the call prints.
\<close>

text \<open>\<^verbatim>\<open>balanced_failure_scenarios.py\<close>: prints a warning when no token is found.\<close>

definition extract_weight_balanced ::
  "(string \<Rightarrow> real option) \<Rightarrow> string \<Rightarrow> py_error + (real \<times> string list)" where
  "extract_weight_balanced to_float text =
     (if contains text ''edge weight'' then
        (case second (split ''edge weight'' text) of
           Inl e \<Rightarrow> Inl e
         | Inr t \<Rightarrow> Inr (float_or_default to_float (strip t), []))
      else if contains text ''cost'' then
        (case second (split ''cost'' text) of
           Inl e \<Rightarrow> Inl e
         | Inr t \<Rightarrow> Inr (float_or_default to_float (strip t), []))
      else Inr (float_or_default to_float ''1.0'',
                [''[!] Warning: No edge weight found, using default 1.0'']))"

text \<open>\<^verbatim>\<open>visualize_with_depot_placement.py\<close>: the same without the warning.\<close>

definition extract_weight_visualize ::
  "(string \<Rightarrow> real option) \<Rightarrow> string \<Rightarrow> py_error + (real \<times> string list)" where
  "extract_weight_visualize to_float text =
     (if contains text ''edge weight'' then
        (case second (split ''edge weight'' text) of
           Inl e \<Rightarrow> Inl e
         | Inr t \<Rightarrow> Inr (float_or_default to_float (strip t), []))
      else if contains text ''cost'' then
        (case second (split ''cost'' text) of
           Inl e \<Rightarrow> Inl e
         | Inr t \<Rightarrow> Inr (float_or_default to_float (strip t), []))
      else Inr (float_or_default to_float ''1.0'', []))"

text \<open>
  \<^verbatim>\<open>updated_failure_scenarios.py\<close>: strips the text first, splits at the first occurrence
  only (\<^verbatim>\<open>split(token, 1)\<close>) and returns \<^verbatim>\<open>1.0\<close> directly when no token is found.
\<close>

definition extract_weight_updated ::
  "(string \<Rightarrow> real option) \<Rightarrow> string \<Rightarrow> py_error + (real \<times> string list)" where
  "extract_weight_updated to_float text0 =
     (let text = strip text0 in
      if contains text ''edge weight'' then
        (case second (split1 ''edge weight'' text) of
           Inl e \<Rightarrow> Inl e
         | Inr t \<Rightarrow> Inr (float_or_default to_float (strip t), []))
      else if contains text ''cost'' then
        (case second (split1 ''cost'' text) of
           Inl e \<Rightarrow> Inl e
         | Inr t \<Rightarrow> Inr (float_or_default to_float (strip t), []))
      else Inr (1, []))"

subsection \<open>The parser\<close>

text \<open>
  \<^verbatim>\<open>parse_text_file\<close> is textually the same in the three scripts and calls the
  \<^verbatim>\<open>extract_weight\<close> of its own script, which is a parameter here. The input is the list
  \<^verbatim>\<open>f.readlines()\<close> returns.
\<close>

datatype parse_section = RequiredEdges | NonRequiredEdges | FailureScenario

record parse_state =
  p_graph :: graph
  p_depots :: "int list"
  p_capacity :: "real option"
  p_section :: "parse_section option"

text \<open>\<^verbatim>\<open>[int(x.strip()) for x in xs]\<close>.\<close>

fun map_int :: "string list \<Rightarrow> py_error + int list" where
  "map_int [] = Inr []"
| "map_int (x # xs) =
     (case py_int (strip x) of
        Inl e \<Rightarrow> Inl e
      | Inr i \<Rightarrow> (case map_int xs of Inl e \<Rightarrow> Inl e | Inr is \<Rightarrow> Inr (i # is)))"

text \<open>
  An edge line: \<^verbatim>\<open>u_v, rest = line.split(') ', 1)\<close>, \<^verbatim>\<open>u, v = map(int, u_v.strip('(').split(','))\<close>.
  A failed unpacking and a failed \<^verbatim>\<open>int\<close> both raise \<^verbatim>\<open>ValueError\<close>.
\<close>

definition parse_edge_line ::
  "(string \<Rightarrow> py_error + (real \<times> string list)) \<Rightarrow> string \<Rightarrow> py_error + (int \<times> int \<times> real)" where
  "parse_edge_line extract_weight line =
     (case split1 '') '' line of
        [u_v, rest] \<Rightarrow>
          (case split '','' (strip_chars (\<lambda>c. c = CHR ''('') u_v) of
             [a, b] \<Rightarrow>
               (case (py_int a, py_int b) of
                  (Inr u, Inr v) \<Rightarrow>
                    (case extract_weight rest of
                       Inl e \<Rightarrow> Inl e
                     | Inr (w, printed) \<Rightarrow> Inr (u, v, w))
                | _ \<Rightarrow> Inl ValueError)
           | _ \<Rightarrow> Inl ValueError)
      | _ \<Rightarrow> Inl ValueError)"

text \<open>The values of the two header fields the parser reads with \<^verbatim>\<open>line.split(':')[1].strip()\<close>.\<close>

definition vertices_field :: "string \<Rightarrow> py_error + int" where
  "vertices_field line =
     (case second (split '':'' line) of Inl e \<Rightarrow> Inl e | Inr t \<Rightarrow> py_int (strip t))"

definition capacity_field :: "(string \<Rightarrow> real option) \<Rightarrow> string \<Rightarrow> py_error + real" where
  "capacity_field to_float line =
     (case second (split '':'' line) of
        Inl e \<Rightarrow> Inl e
      | Inr t \<Rightarrow> (case to_float (strip t) of None \<Rightarrow> Inl ValueError | Some c \<Rightarrow> Inr c))"

definition depots_field :: "string \<Rightarrow> py_error + int list" where
  "depots_field line =
     (case second (split1 '':'' line) of
        Inl e \<Rightarrow> Inl e
      | Inr t \<Rightarrow> map_int (split '','' (strip t)))"

text \<open>One iteration of the loop over the lines.\<close>

definition parse_line ::
  "(string \<Rightarrow> py_error + (real \<times> string list)) \<Rightarrow> (string \<Rightarrow> real option) \<Rightarrow>
   parse_state \<Rightarrow> string \<Rightarrow> py_error + parse_state" where
  "parse_line extract_weight to_float st raw =
     (let line = strip raw in
      if line = [] then Inr st
      else if startswith line ''NAME'' then Inr st
      else if startswith line ''NUMBER OF VERTICES'' then
        (case vertices_field line of
           Inl e \<Rightarrow> Inl e
         | Inr num_vertices \<Rightarrow>
             Inr (st\<lparr>p_graph := add_nodes_from [1..num_vertices] (p_graph st)\<rparr>))
      else if startswith line ''VEHICLE CAPACITY'' then
        (case capacity_field to_float line of
           Inl e \<Rightarrow> Inl e
         | Inr c \<Rightarrow> Inr (st\<lparr>p_capacity := Some c\<rparr>))
      else if startswith line ''LIST_REQUIRED_EDGES:'' then
        Inr (st\<lparr>p_section := Some RequiredEdges\<rparr>)
      else if startswith line ''LIST_NON_REQUIRED_EDGES:'' then
        Inr (st\<lparr>p_section := Some NonRequiredEdges\<rparr>)
      else if startswith line ''FAILURE_SCENARIO:'' then
        Inr (st\<lparr>p_section := Some FailureScenario\<rparr>)
      else if startswith line ''DEPOT:'' then
        (case depots_field line of
           Inl e \<Rightarrow> Inl e
         | Inr ds \<Rightarrow> Inr (st\<lparr>p_depots := ds\<rparr>))
      else if p_section st \<in> {Some RequiredEdges, Some NonRequiredEdges} then
        (case parse_edge_line extract_weight line of
           Inl e \<Rightarrow> Inl e
         | Inr (u, v, w) \<Rightarrow>
             Inr (st\<lparr>p_graph := add_edge u v w (p_section st = Some RequiredEdges) (p_graph st)\<rparr>))
      else Inr st)"

fun parse_lines ::
  "(string \<Rightarrow> py_error + (real \<times> string list)) \<Rightarrow> (string \<Rightarrow> real option) \<Rightarrow>
   parse_state \<Rightarrow> string list \<Rightarrow> py_error + parse_state" where
  "parse_lines extract_weight to_float st [] = Inr st"
| "parse_lines extract_weight to_float st (l # ls) =
     (case parse_line extract_weight to_float st l of
        Inl e \<Rightarrow> Inl e
      | Inr st' \<Rightarrow> parse_lines extract_weight to_float st' ls)"

definition initial_state :: parse_state where
  "initial_state = \<lparr>p_graph = [], p_depots = [], p_capacity = None, p_section = None\<rparr>"

definition parse_text_file ::
  "(string \<Rightarrow> py_error + (real \<times> string list)) \<Rightarrow> (string \<Rightarrow> real option) \<Rightarrow>
   string list \<Rightarrow> py_error + (graph \<times> int list \<times> real)" where
  "parse_text_file extract_weight to_float lines =
     (case parse_lines extract_weight to_float initial_state lines of
        Inl e \<Rightarrow> Inl e
      | Inr st \<Rightarrow>
          (case p_capacity st of
             None \<Rightarrow> Inl CapacityNotFound
           | Some c \<Rightarrow> Inr (p_graph st, p_depots st, c)))"

section \<open>BatchDriver: rewriting one scenario file\<close>










section \<open>A reader of decimal literals\<close>

text \<open>
  The concrete evaluations below need a value for the parameter \<open>to_float\<close>. \<open>decimal_float\<close>
  reads an unsigned decimal literal with at most one point, such as \<^verbatim>\<open>10\<close> or \<^verbatim>\<open>3.0\<close>, and
  agrees with \<^verbatim>\<open>float\<close> on those; it is used on such literals only.
\<close>

fun decimal_digits :: "nat \<Rightarrow> string \<Rightarrow> nat option" where
  "decimal_digits acc [] = Some acc"
| "decimal_digits acc (c # cs) =
     (if is_digit c then decimal_digits (10 * acc + digit_val c) cs else None)"

definition decimal_float :: "string \<Rightarrow> real option" where
  "decimal_float s =
     (case find_first ''.'' s of
        None \<Rightarrow> (if s = [] then None else map_option real (decimal_digits 0 s))
      | Some (i, f) \<Rightarrow>
          (if i = [] \<and> f = [] then None
           else
             (case (decimal_digits 0 i, decimal_digits 0 f) of
                (Some a, Some b) \<Rightarrow> Some (real a + real b / 10 ^ length f)
              | _ \<Rightarrow> None)))"

section \<open>Example data\<close>

text \<open>
  The graph of the four-vertex example: required edges \<open>(1,2)\<close> of weight 3 and
  \<open>(3,4)\<close> of weight 4, non-required edges \<open>(1,3)\<close> and \<open>(2,4)\<close> of weight 2,
  with the travel times set as \<^verbatim>\<open>select_depots\<close> sets them; its coverage map for radius 2;
  and a coverage map in which two nodes have the same gain.
\<close>

definition example_graph :: graph where
  "example_graph =
     [(1, [(2, \<lparr>weight = 3, required = True, travel_time = Some 3\<rparr>),
           (3, \<lparr>weight = 2, required = False, travel_time = Some 2\<rparr>)]),
      (2, [(1, \<lparr>weight = 3, required = True, travel_time = Some 3\<rparr>),
           (4, \<lparr>weight = 2, required = False, travel_time = Some 2\<rparr>)]),
      (3, [(4, \<lparr>weight = 4, required = True, travel_time = Some 4\<rparr>),
           (1, \<lparr>weight = 2, required = False, travel_time = Some 2\<rparr>)]),
      (4, [(3, \<lparr>weight = 4, required = True, travel_time = Some 4\<rparr>),
           (2, \<lparr>weight = 2, required = False, travel_time = Some 2\<rparr>)])]"

definition example_cov2 :: "(int \<times> int list) list" where
  "example_cov2 = [(1, [1, 3]), (2, [2, 4]), (3, [3, 1]), (4, [4, 2])]"

definition example_coverage :: "(int \<times> int list) list" where
  "example_coverage = [(1, [1, 2]), (2, [2, 1]), (3, [3])]"

definition text_line :: "string \<Rightarrow> string" where
  "text_line s = s @ newline"

definition example_lines :: "string list" where
  "example_lines =
     [text_line ''NUMBER OF VERTICES: 4'',
      text_line ''VEHICLE CAPACITY: 10'',
      text_line ''LIST_REQUIRED_EDGES:'',
      text_line ''(1,2) edge weight 3.0'',
      text_line ''(3,4) edge weight 4.0'',
      text_line ''LIST_NON_REQUIRED_EDGES:'',
      text_line ''(1,3) edge weight 2.0'',
      text_line ''(2,4) edge weight 2.0'',
      text_line ''DEPOT: 1'']"


definition has_capacity_line :: "string list \<Rightarrow> bool" where
  "has_capacity_line lines = list_ex (\<lambda>l. startswith (strip l) ''VEHICLE CAPACITY'') lines"




definition rest_after :: "string \<Rightarrow> string \<Rightarrow> string" where
  "rest_after tok s = (case find_first tok s of None \<Rightarrow> [] | Some (b, a) \<Rightarrow> a)"

definition piece_after :: "string \<Rightarrow> string \<Rightarrow> string" where
  "piece_after tok s =
     (case find_first tok (rest_after tok s) of None \<Rightarrow> rest_after tok s | Some (m, r) \<Rightarrow> m)"

definition example_no_capacity :: "string list" where
  "example_no_capacity =
     [text_line ''NUMBER OF VERTICES: 2'',
      text_line ''LIST_REQUIRED_EDGES:'',
      text_line ''(1,2) edge weight 3.0'']"

definition example_self_loop :: "string list" where
  "example_self_loop =
     [text_line ''NUMBER OF VERTICES: 2'',
      text_line ''VEHICLE CAPACITY: 10'',
      text_line ''LIST_REQUIRED_EDGES:'',
      text_line ''(5,5) edge weight 1.0'']"

definition example_small :: "string list" where
  "example_small =
     [text_line ''NUMBER OF VERTICES: 2'',
      text_line ''VEHICLE CAPACITY: 10'',
      text_line ''LIST_REQUIRED_EDGES:'',
      text_line ''(1,2) edge weight 3.0'']"

definition example_small_graph :: graph where
  "example_small_graph =
     [(1, [(2, \<lparr>weight = 3, required = True, travel_time = None\<rparr>)]),
      (2, [(1, \<lparr>weight = 3, required = True, travel_time = None\<rparr>)])]"




section \<open>Properties of the rebalancing\<close>











section \<open>Properties of the greedy depot selection\<close>

subsection \<open>The tie-break of the scan\<close>

lemma scan_best_first_max:
  "scan_best coverage selected covered ns (bn0, g0) = Inr (bn, g) \<Longrightarrow>
   (bn = bn0 \<and> g = g0 \<and>
      (\<forall>x \<in> set (filter (\<lambda>n. n \<notin> selected) ns). marginal_gain coverage covered x \<le> g0))
   \<or> (\<exists>pre b post.
         filter (\<lambda>n. n \<notin> selected) ns = pre @ b # post \<and> bn = Some b \<and>
         g = marginal_gain coverage covered b \<and> g0 < g \<and>
         (\<forall>x \<in> set pre. marginal_gain coverage covered x < g) \<and>
         (\<forall>x \<in> set post. marginal_gain coverage covered x \<le> g))"
proof (induction ns arbitrary: bn0 g0)
  case Nil
  then show ?case by simp
next
  case (Cons n ns)
  let ?gain = "marginal_gain coverage covered"
  let ?cand = "\<lambda>ns. filter (\<lambda>n. n \<notin> selected) ns"
  show ?case
  proof (cases "n \<in> selected")
    case True
    with Cons.prems have "scan_best coverage selected covered ns (bn0, g0) = Inr (bn, g)" by simp
    from Cons.IH [OF this] True show ?thesis by simp
  next
    case False
    with Cons.prems obtain ks where ks: "map_of coverage n = Some ks"
      by (auto split: option.splits)
    then have gn: "?gain n = int (card (set ks - covered))" by (simp add: marginal_gain_def)
    show ?thesis
    proof (cases "?gain n > g0")
      case True
      with Cons.prems False ks gn
      have "scan_best coverage selected covered ns (Some n, ?gain n) = Inr (bn, g)"
        by (simp add: Let_def)
      from Cons.IH [OF this] show ?thesis
      proof
        assume a: "bn = Some n \<and> g = ?gain n \<and> (\<forall>x \<in> set (?cand ns). ?gain x \<le> ?gain n)"
        have "?cand (n # ns) = [] @ n # ?cand ns" using False by simp
        with a True show ?thesis
          by (intro disjI2 exI [of _ "[]"] exI [of _ n] exI [of _ "?cand ns"]) simp
      next
        assume "\<exists>pre b post. ?cand ns = pre @ b # post \<and> bn = Some b \<and> g = ?gain b \<and>
           ?gain n < g \<and> (\<forall>x \<in> set pre. ?gain x < g) \<and> (\<forall>x \<in> set post. ?gain x \<le> g)"
        then obtain pre b post where p: "?cand ns = pre @ b # post" "bn = Some b" "g = ?gain b"
          "?gain n < g" "\<forall>x \<in> set pre. ?gain x < g" "\<forall>x \<in> set post. ?gain x \<le> g"
          by blast
        have "?cand (n # ns) = (n # pre) @ b # post" using False p(1) by simp
        moreover have "\<forall>x \<in> set (n # pre). ?gain x < g" using p(4,5) by simp
        moreover have "g0 < g" using True p(4) by simp
        ultimately show ?thesis using p(2,3,6) by blast
      qed
    next
      case ng: False
      with Cons.prems False ks gn
      have "scan_best coverage selected covered ns (bn0, g0) = Inr (bn, g)"
        by (simp add: Let_def)
      from Cons.IH [OF this] show ?thesis
      proof
        assume "bn = bn0 \<and> g = g0 \<and> (\<forall>x \<in> set (?cand ns). ?gain x \<le> g0)"
        with ng False show ?thesis by auto
      next
        assume "\<exists>pre b post. ?cand ns = pre @ b # post \<and> bn = Some b \<and> g = ?gain b \<and>
           g0 < g \<and> (\<forall>x \<in> set pre. ?gain x < g) \<and> (\<forall>x \<in> set post. ?gain x \<le> g)"
        then obtain pre b post where p: "?cand ns = pre @ b # post" "bn = Some b" "g = ?gain b"
          "g0 < g" "\<forall>x \<in> set pre. ?gain x < g" "\<forall>x \<in> set post. ?gain x \<le> g"
          by blast
        have "?cand (n # ns) = (n # pre) @ b # post" using False p(1) by simp
        moreover have "\<forall>x \<in> set (n # pre). ?gain x < g" using p(4,5) ng by simp
        ultimately show ?thesis using p(2,3,4,6) by blast
      qed
    qed
  qed
qed

lemma marginal_gain_nonneg: "0 \<le> marginal_gain coverage covered x"
  by (simp add: marginal_gain_def split: option.splits)

text \<open>
  C3. In every iteration of the greedy selection the scan over the nodes (in the graph's
  node order \<open>ns\<close>) returns no node when every node is selected already, and
  otherwise the first unselected node of \<open>ns\<close> whose gain is maximal: every unselected
  node before it has a strictly smaller gain, every one after it a gain that is not larger.
  When \<open>ns\<close> is ascending (the nodes \<open>1..N\<close>), it is the lowest node id among the
  unselected nodes of maximal gain. The scan is a function of the coverage map, the two
  sets and the node order.
\<close>

theorem scan_best_tie_break:
  assumes "scan_best coverage selected covered ns (None, - 1) = Inr (best_node, best_gain)"
  shows "(filter (\<lambda>n. n \<notin> selected) ns = [] \<and> best_node = None)
       \<or> (\<exists>pre b post.
            filter (\<lambda>n. n \<notin> selected) ns = pre @ b # post \<and> best_node = Some b \<and>
            best_gain = marginal_gain coverage covered b \<and>
            (\<forall>x \<in> set pre. marginal_gain coverage covered x < marginal_gain coverage covered b) \<and>
            (\<forall>x \<in> set post. marginal_gain coverage covered x \<le> marginal_gain coverage covered b) \<and>
            (sorted ns \<longrightarrow>
               (\<forall>x \<in> set ns. x \<notin> selected \<and>
                   marginal_gain coverage covered x = marginal_gain coverage covered b \<longrightarrow> b \<le> x)))"
proof -
  let ?gain = "marginal_gain coverage covered"
  let ?cand = "filter (\<lambda>n. n \<notin> selected) ns"
  from scan_best_first_max [OF assms] show ?thesis
  proof
    assume a: "best_node = None \<and> best_gain = - 1 \<and> (\<forall>x \<in> set ?cand. ?gain x \<le> - 1)"
    have "?cand = []"
    proof (cases ?cand)
      case (Cons x xs)
      then have "x \<in> set ?cand" by simp
      with a have "?gain x \<le> - 1" by blast
      with marginal_gain_nonneg [of coverage covered x] show ?thesis by simp
    qed simp
    with a show ?thesis by simp
  next
    assume "\<exists>pre b post. ?cand = pre @ b # post \<and> best_node = Some b \<and> best_gain = ?gain b \<and>
       - 1 < best_gain \<and> (\<forall>x \<in> set pre. ?gain x < best_gain) \<and> (\<forall>x \<in> set post. ?gain x \<le> best_gain)"
    then obtain pre b post where p: "?cand = pre @ b # post" "best_node = Some b"
      "best_gain = ?gain b" "\<forall>x \<in> set pre. ?gain x < best_gain" "\<forall>x \<in> set post. ?gain x \<le> best_gain"
      by blast
    have low: "b \<le> x" if s: "sorted ns" and x: "x \<in> set ns" "x \<notin> selected" "?gain x = ?gain b" for x
    proof -
      from s have sc: "sorted ?cand" by (rule sorted_wrt_filter)
      from x have "x \<in> set ?cand" by simp
      with p(1) have "x \<in> set pre \<or> x = b \<or> x \<in> set post" by auto
      moreover have "x \<notin> set pre" using p(3,4) x(3) by auto
      moreover have "b \<le> y" if "y \<in> set post" for y
        using sc that unfolding p(1) by (auto simp: sorted_append)
      ultimately show ?thesis by auto
    qed
    from p low show ?thesis by blast
  qed
qed

theorem scan_best_tie_break_witness:
  "scan_best example_coverage {} {} [1, 2, 3] (None, - 1) = Inr (Some 1, 2) \<and>
   ((filter (\<lambda>n. n \<notin> {}) [1, 2, 3 :: int] = [] \<and> Some 1 = (None :: int option))
    \<or> (\<exists>pre b post.
          filter (\<lambda>n. n \<notin> {}) [1, 2, 3 :: int] = pre @ b # post \<and> Some 1 = Some b \<and>
          2 = marginal_gain example_coverage {} b \<and>
          (\<forall>x \<in> set pre. marginal_gain example_coverage {} x < marginal_gain example_coverage {} b) \<and>
          (\<forall>x \<in> set post. marginal_gain example_coverage {} x \<le> marginal_gain example_coverage {} b) \<and>
          (sorted [1, 2, 3 :: int] \<longrightarrow>
             (\<forall>x \<in> set [1, 2, 3]. x \<notin> {} \<and>
                 marginal_gain example_coverage {} x = marginal_gain example_coverage {} b \<longrightarrow> b \<le> x))))"
proof -
  have h: "scan_best example_coverage {} {} [1, 2, 3] (None, - 1) = Inr (Some 1, 2)"
    by (simp add: example_coverage_def)
  from h scan_best_tie_break [OF h] show ?thesis by (rule conjI)
qed

subsection \<open>Coverage contains the node itself\<close>

lemma heap_min_least: "y \<in> set (x # xs) \<Longrightarrow> fst (heap_min x xs) \<le> fst y"
proof (induction xs arbitrary: x y)
  case Nil
  then show ?case by simp
next
  case (Cons z zs)
  let ?m = "if entry_less z x then z else x"
  have m: "fst ?m \<le> fst x" "fst ?m \<le> fst z" by (auto simp: entry_less_def)
  from Cons.prems consider "y = x" | "y = z" | "y \<in> set zs" by auto
  then show ?case
  proof cases
    case 1
    from Cons.IH [of ?m ?m] m(1) 1 show ?thesis by simp
  next
    case 2
    from Cons.IH [of ?m ?m] m(2) 2 show ?thesis by simp
  next
    case 3
    from Cons.IH [of y ?m] 3 show ?thesis by simp
  qed
qed

lemma relax_ok:
  assumes "\<forall>(u, e) \<in> set nbrs. u \<in> V \<and> 0 \<le> edge_cost e"
    and "\<forall>(u, du) \<in> set (dist st). du \<le> d"
    and "\<forall>(d', c, w) \<in> set (fringe st). w \<in> V \<and> d \<le> d'"
  shows "\<exists>st'. relax cutoff d nbrs st = Inr st' \<and> dist st' = dist st \<and>
           (\<forall>(d', c, w) \<in> set (fringe st'). w \<in> V \<and> d \<le> d')"
  using assms
proof (induction nbrs arbitrary: st)
  case Nil
  then show ?case by simp
next
  case (Cons a nbrs)
  obtain u e where a: "a = (u, e)" by (cases a)
  from Cons.prems(1) a have ue: "u \<in> V" "0 \<le> edge_cost e"
    and rest: "\<forall>(u, e) \<in> set nbrs. u \<in> V \<and> 0 \<le> edge_cost e" by auto
  let ?vu = "d + edge_cost e"
  have keep: "\<exists>st'. relax cutoff d nbrs st = Inr st' \<and> dist st' = dist st \<and>
           (\<forall>(d', c, w) \<in> set (fringe st'). w \<in> V \<and> d \<le> d')"
    by (rule Cons.IH [OF rest Cons.prems(2,3)])
  have push: "\<exists>st'. relax cutoff d nbrs (heappush ?vu u st) = Inr st' \<and> dist st' = dist st \<and>
           (\<forall>(d', c, w) \<in> set (fringe st'). w \<in> V \<and> d \<le> d')"
    using Cons.IH [OF rest, of "heappush ?vu u st"] Cons.prems(2,3) ue
    by (auto simp: heappush_def)
  have settled: "\<not> ?vu < ud" if "map_of (dist st) u = Some ud" for ud
  proof -
    from that have "(u, ud) \<in> set (dist st)" by (rule map_of_SomeD)
    with Cons.prems(2) have "ud \<le> d" by auto
    with ue(2) show ?thesis by simp
  qed
  from keep push settled show ?case
    unfolding a by (auto simp: Let_def split: option.splits)
qed

lemma dijkstra_loop_ok:
  "well_formed G \<Longrightarrow>
   \<forall>(d', c, w) \<in> set (fringe st). w \<in> set (nodes G) \<and> (\<forall>(u, du) \<in> set (dist st). du \<le> d') \<Longrightarrow>
   \<exists>ds. dijkstra_loop G cutoff st = Inr ds"
proof (induction G cutoff st rule: dijkstra_loop.induct)
  case (1 G cutoff st)
  note wf = "1.prems"(1) and inv = "1.prems"(2)
  show ?case
  proof (cases "fringe st")
    case Nil
    then show ?thesis by simp
  next
    case (Cons x xs)
    obtain d c v rest where pop: "heappop x xs = ((d, c, v), rest)"
      by (metis surj_pair)
    then have m: "heap_min x xs = (d, c, v)" and r: "rest = remove1 (d, c, v) (x # xs)"
      by (auto simp: heappop_def Let_def)
    from heap_min_mem [of x xs] m Cons have mem: "(d, c, v) \<in> set (fringe st)" by simp
    have least: "d \<le> d'" if "(d', c', w) \<in> set (fringe st)" for d' c' w
      using heap_min_least [of "(d', c', w)" x xs] that m Cons by simp
    have sub: "set rest \<subseteq> set (fringe st)"
      unfolding r Cons by (rule set_remove1_subset)
    from inv mem have vin: "v \<in> set (nodes G)" and dd: "\<forall>(u, du) \<in> set (dist st). du \<le> d"
      by auto
    show ?thesis
    proof (cases "v \<in> fst ` set (dist st)")
      case True
      have "\<forall>(d', c, w) \<in> set (fringe (st\<lparr>fringe := rest\<rparr>)). w \<in> set (nodes G) \<and>
              (\<forall>(u, du) \<in> set (dist (st\<lparr>fringe := rest\<rparr>)). du \<le> d')"
      proof (clarsimp)
        fix d' c' w
        assume "(d', c', w) \<in> set rest"
        with sub have "(d', c', w) \<in> set (fringe st)" by blast
        with inv show "w \<in> set (nodes G) \<and> (\<forall>x \<in> set (dist st). case x of (u, du) \<Rightarrow> du \<le> d')"
          by fastforce
      qed
      from "1.IH"(1) [OF Cons pop [symmetric] refl refl True wf this] Cons pop True
      show ?thesis by simp
    next
      case False
      from vin obtain nbrs where nb: "map_of G v = Some nbrs"
        by (metis map_of_eq_None_iff nodes_def not_Some_eq set_map)
      then have "(v, nbrs) \<in> set G" by (rule map_of_SomeD)
      with wf have nbw: "\<forall>(u, e) \<in> set nbrs. u \<in> set (nodes G) \<and> 0 \<le> edge_cost e"
        by (auto simp: well_formed_def)
      let ?st1 = "st\<lparr>dist := dist st @ [(v, d)], fringe := rest\<rparr>"
      have d1: "\<forall>(u, du) \<in> set (dist ?st1). du \<le> d" using dd by auto
      have f1: "\<forall>(d', c, w) \<in> set (fringe ?st1). w \<in> set (nodes G) \<and> d \<le> d'"
      proof (clarsimp)
        fix d' c' w
        assume "(d', c', w) \<in> set rest"
        with sub have in_fr: "(d', c', w) \<in> set (fringe st)" by blast
        with inv have "w \<in> set (nodes G)" by fastforce
        with least [OF in_fr] show "w \<in> set (nodes G) \<and> d \<le> d'" by simp
      qed
      from relax_ok [OF nbw d1 f1, of cutoff] obtain st' where
        rl: "relax cutoff d nbrs ?st1 = Inr st'" and ds: "dist st' = dist ?st1"
        and fr: "\<forall>(d', c, w) \<in> set (fringe st'). w \<in> set (nodes G) \<and> d \<le> d'"
        by blast
      have "\<forall>(d', c, w) \<in> set (fringe st'). w \<in> set (nodes G) \<and>
              (\<forall>(u, du) \<in> set (dist st'). du \<le> d')"
        using fr d1 unfolding ds by fastforce
      from "1.IH"(2) [OF Cons pop [symmetric] refl refl False nb rl wf this] Cons pop False nb rl
      show ?thesis by simp
    qed
  qed
qed

lemma compute_coverage_returns:
  assumes "well_formed G"
  shows "\<exists>coverage. compute_coverage G radius = Inr coverage"
proof -
  have ss: "\<exists>ds. single_source_dijkstra_path_length G n radius = Inr ds" if "n \<in> set (nodes G)" for n
    using that dijkstra_loop_ok [OF assms, of
        "\<lparr>dist = [], seen = [(n, 0)], fringe = [(0, 0, n)], counter = 1\<rparr>" radius]
    by (simp add: single_source_dijkstra_path_length_def)
  have "set ns \<subseteq> set (nodes G) \<Longrightarrow> \<exists>coverage. coverage_loop G radius ns = Inr coverage" for ns
  proof (induction ns)
    case Nil
    then show ?case by simp
  next
    case (Cons n ns)
    then obtain cov where "coverage_loop G radius ns = Inr cov" by auto
    moreover from Cons.prems ss [of n] obtain ds where
      "single_source_dijkstra_path_length G n radius = Inr ds" by auto
    ultimately show ?case by simp
  qed
  then show ?thesis by (simp add: compute_coverage_def)
qed

lemma relax_dist: "relax cutoff d nbrs st = Inr st' \<Longrightarrow> dist st' = dist st"
  using relax_bound by blast

lemma dijkstra_loop_keys:
  "dijkstra_loop G cutoff st = Inr ds \<Longrightarrow>
   fst ` set (dist st) \<subseteq> fst ` set ds \<and>
   (fst ` set (dist st) \<subseteq> set (nodes G) \<longrightarrow> fst ` set ds \<subseteq> set (nodes G))"
proof (induction G cutoff st rule: dijkstra_loop.induct)
  case (1 G cutoff st)
  show ?case
  proof (cases "fringe st")
    case Nil
    with "1.prems" show ?thesis by simp
  next
    case (Cons x xs)
    obtain d c v rest where pop: "heappop x xs = ((d, c, v), rest)"
      by (metis surj_pair)
    show ?thesis
    proof (cases "v \<in> fst ` set (dist st)")
      case True
      with "1.prems" Cons pop have "dijkstra_loop G cutoff (st\<lparr>fringe := rest\<rparr>) = Inr ds"
        by simp
      from "1.IH"(1) [OF Cons pop [symmetric] refl refl True this] show ?thesis by simp
    next
      case False
      with "1.prems" Cons pop obtain nbrs st' where nb: "map_of G v = Some nbrs"
        and rl: "relax cutoff d nbrs (st\<lparr>dist := dist st @ [(v, d)], fringe := rest\<rparr>) = Inr st'"
        and lp: "dijkstra_loop G cutoff st' = Inr ds"
        by (auto split: option.splits sum.splits)
      from relax_dist [OF rl] have ds: "dist st' = dist st @ [(v, d)]" by simp
      from nb have vin: "v \<in> set (nodes G)"
        by (metis map_of_eq_None_iff nodes_def option.distinct(1) set_map)
      from "1.IH"(2) [OF Cons pop [symmetric] refl refl False nb rl lp] ds vin
      show ?thesis by auto
    qed
  qed
qed

lemma single_source_contains_source:
  assumes "single_source_dijkstra_path_length G source cutoff = Inr lengths"
  shows "source \<in> fst ` set lengths \<and> fst ` set lengths \<subseteq> set (nodes G)"
proof -
  let ?st0 = "\<lparr>dist = [], seen = [(source, 0)], fringe = [(0, 0, source)], counter = 1\<rparr>"
  from assms have src: "source \<in> set (nodes G)" and lp: "dijkstra_loop G cutoff ?st0 = Inr lengths"
    by (auto simp: single_source_dijkstra_path_length_def split: if_splits)
  from src obtain nbrs where nb: "map_of G source = Some nbrs"
    by (metis map_of_eq_None_iff nodes_def not_Some_eq set_map)
  from lp nb obtain st' where
    rl: "relax cutoff 0 nbrs (?st0\<lparr>dist := [(source, 0)], fringe := []\<rparr>) = Inr st'"
    and lp': "dijkstra_loop G cutoff st' = Inr lengths"
    by (subst (asm) dijkstra_loop.simps) (auto simp: heappop_def split: sum.splits)
  from relax_dist [OF rl] have "dist st' = [(source, 0)]" by simp
  with dijkstra_loop_keys [OF lp'] src show ?thesis by auto
qed

lemma coverage_loop_entries:
  "coverage_loop G radius ns = Inr coverage \<Longrightarrow> n \<in> set ns \<Longrightarrow>
   \<exists>ks. map_of coverage n = Some ks \<and> n \<in> set ks \<and> set ks \<subseteq> set (nodes G)"
proof (induction ns arbitrary: coverage)
  case Nil
  then show ?case by simp
next
  case (Cons m ns)
  from Cons.prems(1) obtain lengths cov' where
    ss: "single_source_dijkstra_path_length G m radius = Inr lengths"
    and cl: "coverage_loop G radius ns = Inr cov'"
    and cov: "coverage = (m, map fst lengths) # cov'"
    by (auto split: sum.splits)
  show ?case
  proof (cases "n = m")
    case True
    with single_source_contains_source [OF ss] cov show ?thesis by simp
  next
    case False
    with Cons.prems(2) have "n \<in> set ns" by simp
    from Cons.IH [OF cl this] False cov show ?thesis by simp
  qed
qed

text \<open>
  C5. For every graph and every radius, the coverage map that \<^verbatim>\<open>compute_coverage\<close> returns
  has an entry for each node of the graph, and the entry contains the node itself.
\<close>

theorem compute_coverage_contains_self:
  assumes "compute_coverage G radius = Inr coverage" and "node \<in> set (nodes G)"
  shows "\<exists>ks. map_of coverage node = Some ks \<and> node \<in> set ks"
  using coverage_loop_entries [of G radius "nodes G" coverage node] assms
  by (auto simp: compute_coverage_def)

theorem compute_coverage_contains_self_witness:
  "compute_coverage example_graph 2 = Inr example_cov2 \<and> 3 \<in> set (nodes example_graph) \<and>
   (\<exists>ks. map_of example_cov2 3 = Some ks \<and> 3 \<in> set ks)"
proof -
  have h1: "compute_coverage example_graph 2 = Inr example_cov2"
    unfolding example_cov2_def by code_simp
  have h2: "3 \<in> set (nodes example_graph)" by code_simp
  from compute_coverage_contains_self [OF h1 h2] h1 h2 show ?thesis by blast
qed

subsection \<open>The loop covers every node\<close>

lemma scan_best_ok:
  "\<forall>n \<in> set ns. n \<notin> selected \<longrightarrow> map_of coverage n \<noteq> None \<Longrightarrow>
   \<exists>res. scan_best coverage selected covered ns best = Inr res"
proof (induction ns arbitrary: best)
  case Nil
  then show ?case by simp
next
  case (Cons n ns)
  obtain bn bg where b: "best = (bn, bg)" by (cases best)
  from Cons.prems have rest: "\<forall>n \<in> set ns. n \<notin> selected \<longrightarrow> map_of coverage n \<noteq> None"
    by simp
  show ?case
  proof (cases "n \<in> selected")
    case True
    with Cons.IH [OF rest, of "(bn, bg)"] b show ?thesis by simp
  next
    case False
    with Cons.prems obtain ks where ks: "map_of coverage n = Some ks" by auto
    from Cons.IH [OF rest, of "(Some n, int (card (set ks - covered)))"]
         Cons.IH [OF rest, of "(bn, bg)"] False ks b
    show ?thesis by (simp add: Let_def)
  qed
qed

lemma scan_best_start:
  assumes "scan_best coverage selected covered ns (None, - 1) = Inr (bn, g)"
  shows "(filter (\<lambda>n. n \<notin> selected) ns = [] \<and> bn = None) \<or>
         (\<exists>b. bn = Some b \<and> b \<in> set ns \<and> b \<notin> selected)"
proof -
  from scan_best_first_max [OF assms] show ?thesis
  proof
    assume a: "bn = None \<and> g = - 1 \<and>
      (\<forall>x \<in> set (filter (\<lambda>n. n \<notin> selected) ns). marginal_gain coverage covered x \<le> - 1)"
    have "filter (\<lambda>n. n \<notin> selected) ns = []"
    proof (cases "filter (\<lambda>n. n \<notin> selected) ns")
      case (Cons x xs)
      then have "x \<in> set (filter (\<lambda>n. n \<notin> selected) ns)" by simp
      with a have "marginal_gain coverage covered x \<le> - 1" by blast
      with marginal_gain_nonneg [of coverage covered x] show ?thesis by simp
    qed simp
    with a show ?thesis by simp
  next
    assume "\<exists>pre b post. filter (\<lambda>n. n \<notin> selected) ns = pre @ b # post \<and> bn = Some b \<and>
       g = marginal_gain coverage covered b \<and> - 1 < g \<and>
       (\<forall>x \<in> set pre. marginal_gain coverage covered x < g) \<and>
       (\<forall>x \<in> set post. marginal_gain coverage covered x \<le> g)"
    then obtain pre b post where p: "filter (\<lambda>n. n \<notin> selected) ns = pre @ b # post" "bn = Some b"
      by blast
    then have "b \<in> set (filter (\<lambda>n. n \<notin> selected) ns)" by simp
    with p(2) show ?thesis by simp
  qed
qed

lemma greedy_body_step:
  assumes "greedy_body ns coverage selected covered = Inr (Some (selected', covered'))"
  shows "\<exists>b ks. b \<in> set ns \<and> b \<notin> selected \<and> map_of coverage b = Some ks \<and>
           selected' = insert b selected \<and> covered' = covered \<union> set ks"
proof -
  from assms obtain b g ks where sc: "scan_best coverage selected covered ns (None, - 1) = Inr (Some b, g)"
    and ks: "map_of coverage b = Some ks"
    and eq: "selected' = insert b selected" "covered' = covered \<union> set ks"
    by (auto simp: greedy_body_def split: sum.splits option.splits)
  from scan_best_node [OF sc] ks eq show ?thesis by auto
qed

lemma greedy_loop_grows:
  "greedy_loop ns coverage k selected covered = Inr r \<Longrightarrow>
   selected \<subseteq> selected_nodes r \<and> covered \<subseteq> covered_nodes r \<and> k \<le> iterations r \<and>
   (finite selected \<longrightarrow> card (selected_nodes r) = card selected + (iterations r - k))"
proof (induction ns coverage k selected covered rule: greedy_loop.induct)
  case (1 ns coverage k selected covered)
  show ?case
  proof (cases "covered = set ns")
    case True
    with "1.prems" show ?thesis by auto
  next
    case False
    show ?thesis
    proof (cases "greedy_body ns coverage selected covered")
      case (Inl e)
      with "1.prems" False show ?thesis by simp
    next
      case (Inr res)
      show ?thesis
      proof (cases res)
        case None
        with "1.prems" False Inr show ?thesis by auto
      next
        case (Some p)
        obtain selected' covered' where p: "p = (selected', covered')" by (cases p)
        from Inr Some p have gb: "greedy_body ns coverage selected covered = Inr (Some (selected', covered'))"
          by simp
        with "1.prems" False have lp: "greedy_loop ns coverage (Suc k) selected' covered' = Inr r"
          by simp
        from greedy_body_step [OF gb] obtain b ks where b: "b \<notin> selected"
          "selected' = insert b selected" "covered' = covered \<union> set ks" by blast
        from "1.IH" [OF False Inr Some p [symmetric] lp] b show ?thesis by auto
      qed
    qed
  qed
qed

lemma greedy_loop_total:
  "\<forall>n \<in> set ns. \<exists>ks. map_of coverage n = Some ks \<and> n \<in> set ks \<and> set ks \<subseteq> set ns \<Longrightarrow>
    selected \<subseteq> covered \<Longrightarrow> covered \<subseteq> set ns \<Longrightarrow>
    \<exists>r. greedy_loop ns coverage k selected covered = Inr r \<and> covered_nodes r = set ns \<and>
        \<not> no_candidate r \<and> iterations r \<le> k + card (set ns - selected)"
proof (induction ns coverage k selected covered rule: greedy_loop.induct)
  case (1 ns coverage k selected covered)
  note cov = "1.prems"(1) and sc = "1.prems"(2) and cn = "1.prems"(3)
  show ?case
  proof (cases "covered = set ns")
    case True
    then show ?thesis by simp
  next
    case False
    from cov have "\<forall>n \<in> set ns. n \<notin> selected \<longrightarrow> map_of coverage n \<noteq> None" by auto
    from scan_best_ok [OF this, of covered "(None, - 1)"]
    obtain bn g where scan: "scan_best coverage selected covered ns (None, - 1) = Inr (bn, g)"
      by auto
    from scan_best_start [OF scan] obtain b where b: "bn = Some b" "b \<in> set ns" "b \<notin> selected"
    proof
      assume "filter (\<lambda>n. n \<notin> selected) ns = [] \<and> bn = None"
      then have "set ns \<subseteq> selected" by (auto simp: filter_empty_conv)
      with sc cn False show ?thesis by auto
    next
      assume "\<exists>b. bn = Some b \<and> b \<in> set ns \<and> b \<notin> selected"
      then show ?thesis using that by blast
    qed
    from cov b(2) obtain ks where ks: "map_of coverage b = Some ks" "b \<in> set ks" "set ks \<subseteq> set ns"
      by blast
    from scan b(1) ks(1)
    have gb: "greedy_body ns coverage selected covered = Inr (Some (insert b selected, covered \<union> set ks))"
      by (simp add: greedy_body_def)
    have "insert b selected \<subseteq> covered \<union> set ks" using sc ks(2) by auto
    moreover have "covered \<union> set ks \<subseteq> set ns" using cn ks(3) by auto
    ultimately obtain r where r: "greedy_loop ns coverage (Suc k) (insert b selected) (covered \<union> set ks) = Inr r"
      "covered_nodes r = set ns" "\<not> no_candidate r"
      "iterations r \<le> Suc k + card (set ns - insert b selected)"
      using "1.IH" [OF False gb refl refl cov] by blast
    have "card (set ns - insert b selected) < card (set ns - selected)"
      using b(2,3) by (intro psubset_card_mono) auto
    with r(4) have "iterations r \<le> k + card (set ns - selected)" by simp
    moreover from r(1) gb False have "greedy_loop ns coverage k selected covered = Inr r"
      by simp
    ultimately show ?thesis using r(2,3) by blast
  qed
qed

lemma select_depots_with_factor_returns:
  assumes "well_formed (annotate_travel_time G)" and "factor \<noteq> 0"
  shows "\<exists>depots. select_depots_with_factor G battery_capacity factor = Inr depots"
proof -
  let ?G = "annotate_travel_time G"
  from compute_coverage_returns [OF assms(1)] obtain coverage where
    c: "compute_coverage ?G (battery_capacity / factor) = Inr coverage" by blast
  have "\<forall>n \<in> set (nodes ?G). \<exists>ks. map_of coverage n = Some ks \<and> n \<in> set ks \<and>
          set ks \<subseteq> set (nodes ?G)"
    using coverage_loop_entries [of ?G "battery_capacity / factor" "nodes ?G" coverage] c
    by (auto simp: compute_coverage_def)
  from greedy_loop_total [OF this, of "{}" "{}" 0] obtain r where
    "greedy_loop (nodes ?G) coverage 0 {} {} = Inr r" by auto
  with c assms(2) show ?thesis by (simp add: select_depots_with_factor_def Let_def)
qed



subsection \<open>Monotonicity of the selection\<close>

text \<open>
  C4. In every iteration of the greedy selection the node that is selected was not in the
  selection before, and the covered set after the iteration includes the covered set before
  it. Over a whole run of the loop from any state, the selection and the covered set only
  grow, and the selection grows by exactly one node per iteration.
\<close>

theorem greedy_never_reselects:
  "(greedy_body ns coverage selected covered = Inr (Some (selected', covered')) \<longrightarrow>
      (\<exists>b. b \<in> set ns \<and> b \<notin> selected \<and> selected' = insert b selected) \<and>
      covered \<subseteq> covered') \<and>
   (greedy_loop ns coverage k selected covered = Inr r \<and> finite selected \<longrightarrow>
      selected \<subseteq> selected_nodes r \<and> covered \<subseteq> covered_nodes r \<and>
      card (selected_nodes r) = card selected + (iterations r - k))"
proof (intro conjI impI)
  assume "greedy_body ns coverage selected covered = Inr (Some (selected', covered'))"
  from greedy_body_step [OF this]
  show "\<exists>b. b \<in> set ns \<and> b \<notin> selected \<and> selected' = insert b selected"
    and "covered \<subseteq> covered'" by auto
next
  assume a: "greedy_loop ns coverage k selected covered = Inr r \<and> finite selected"
  with greedy_loop_grows [of ns coverage k selected covered r]
  show "selected \<subseteq> selected_nodes r" and "covered \<subseteq> covered_nodes r"
    and "card (selected_nodes r) = card selected + (iterations r - k)" by auto
qed

lemma example_greedy_loop:
  "greedy_loop [1, 2, 3, 4] example_cov2 0 {} {} =
     Inr \<lparr>selected_nodes = {2, 1}, covered_nodes = {1, 2, 3, 4}, iterations = 2, no_candidate = False\<rparr>"
  by code_simp

lemma example_greedy_body:
  "greedy_body [1, 2, 3, 4] example_cov2 {} {} = Inr (Some ({1}, {1, 3}))"
  by code_simp

theorem greedy_never_reselects_witness:
  "greedy_body [1, 2, 3, 4] example_cov2 {} {} = Inr (Some ({1}, {1, 3})) \<and>
   ((\<exists>b. b \<in> set [1, 2, 3, 4 :: int] \<and> b \<notin> {} \<and> {1} = insert b {}) \<and> {} \<subseteq> {1, 3 :: int}) \<and>
   (greedy_loop [1, 2, 3, 4] example_cov2 0 {} {} =
      Inr \<lparr>selected_nodes = {2, 1}, covered_nodes = {1, 2, 3, 4}, iterations = 2, no_candidate = False\<rparr> \<and>
    finite ({} :: int set)) \<and>
   ({} \<subseteq> selected_nodes \<lparr>selected_nodes = {2, 1 :: int}, covered_nodes = {1, 2, 3, 4 :: int}, iterations = 2 :: nat, no_candidate = False\<rparr> \<and>
    {} \<subseteq> covered_nodes \<lparr>selected_nodes = {2, 1 :: int}, covered_nodes = {1, 2, 3, 4 :: int}, iterations = 2 :: nat, no_candidate = False\<rparr> \<and>
    card (selected_nodes \<lparr>selected_nodes = {2, 1 :: int}, covered_nodes = {1, 2, 3, 4 :: int}, iterations = 2 :: nat, no_candidate = False\<rparr>) =
      card ({} :: int set) +
      (iterations \<lparr>selected_nodes = {2, 1 :: int}, covered_nodes = {1, 2, 3, 4 :: int}, iterations = 2 :: nat, no_candidate = False\<rparr> - 0))"
proof -
  let ?r = "\<lparr>selected_nodes = {2, 1 :: int}, covered_nodes = {1, 2, 3, 4 :: int}, iterations = 2 :: nat, no_candidate = False\<rparr>"
  note t = greedy_never_reselects [of "[1, 2, 3, 4]" example_cov2 "{}" "{}" "{1}" "{1, 3}" 0 ?r]
  have h1: "greedy_body [1, 2, 3, 4] example_cov2 {} {} = Inr (Some ({1}, {1, 3}))"
    by (rule example_greedy_body)
  have h2: "greedy_loop [1, 2, 3, 4] example_cov2 0 {} {} = Inr ?r \<and> finite ({} :: int set)"
    using example_greedy_loop by simp
  from t [THEN conjunct1, THEN mp, OF h1] t [THEN conjunct2, THEN mp, OF h2] h1 h2
  show ?thesis by blast
qed

section \<open>Properties of the vehicle count\<close>






section \<open>Properties of the parser and of weight extraction\<close>

subsection \<open>The capacity field and the weight tokens\<close>

lemma startswith_Nil [simp]: "startswith s [] = True"
  by (simp add: startswith_def)

lemma startswith_Cons:
  "startswith s (c # p) = (case s of [] \<Rightarrow> False | d # t \<Rightarrow> d = c \<and> startswith t p)"
  by (cases s) (auto simp: startswith_def)

lemma parse_line_capacity:
  assumes "parse_line ew tf st l = Inr st'"
  shows "if startswith (strip l) ''VEHICLE CAPACITY''
         then \<exists>c. capacity_field tf (strip l) = Inr c \<and> p_capacity st' = Some c
         else p_capacity st' = p_capacity st"
proof (cases "startswith (strip l) ''VEHICLE CAPACITY''")
  case True
  then have "strip l \<noteq> []" "\<not> startswith (strip l) ''NAME''"
    "\<not> startswith (strip l) ''NUMBER OF VERTICES''"
    by (auto simp: startswith_Cons split: list.splits)
  with assms True show ?thesis
    by (auto simp: parse_line_def Let_def split: sum.splits)
next
  case False
  with assms show ?thesis
    by (auto simp: parse_line_def Let_def split: sum.splits if_splits prod.splits)
qed

lemma parse_lines_capacity:
  "parse_lines ew tf st ls = Inr st' \<Longrightarrow>
   (if filter (\<lambda>l. startswith (strip l) ''VEHICLE CAPACITY'') ls = [] then p_capacity st' = p_capacity st
    else \<exists>c. capacity_field tf (strip (last (filter (\<lambda>l. startswith (strip l) ''VEHICLE CAPACITY'') ls))) = Inr c \<and>
             p_capacity st' = Some c)"
proof (induction ls arbitrary: st)
  case Nil
  then show ?case by simp
next
  case (Cons l ls)
  from Cons.prems obtain st1 where s1: "parse_line ew tf st l = Inr st1"
    and rest: "parse_lines ew tf st1 ls = Inr st'"
    by (auto split: sum.splits)
  from Cons.IH [OF rest] parse_line_capacity [OF s1] show ?case
    by (auto split: if_splits)
qed

lemma split_acc_find:
  "sep \<noteq> [] \<Longrightarrow>
   split_acc sep acc s =
     (case find_first sep s of
        None \<Rightarrow> [rev acc @ s]
      | Some (b, a) \<Rightarrow> (rev acc @ b) # split_acc sep [] a)"
proof (induction sep acc s rule: split_acc.induct)
  case (1 sep acc)
  then show ?case by simp
next
  case (2 sep acc c cs)
  show ?case
  proof (cases "startswith (c # cs) sep")
    case True
    with "2.prems" show ?thesis by simp
  next
    case False
    with "2.IH"(2) "2.prems" show ?thesis
      by (auto split: option.splits)
  qed
qed

lemma split_find:
  "sep \<noteq> [] \<Longrightarrow>
   split sep s = (case find_first sep s of None \<Rightarrow> [s] | Some (b, a) \<Rightarrow> b # split sep a)"
  using split_acc_find [of sep "[]" s] by (simp add: split_def split: option.splits)

lemma second_split:
  assumes "sep \<noteq> []" and "contains s sep"
  shows "second (split sep s) = Inr (piece_after sep s)"
proof -
  from assms(2) obtain b a where f: "find_first sep s = Some (b, a)"
    by (auto simp: contains_def)
  have "split sep a = (case find_first sep a of None \<Rightarrow> [a] | Some (m, r) \<Rightarrow> m # split sep r)"
    by (rule split_find [OF assms(1)])
  with f split_find [OF assms(1), of s] show ?thesis
    by (auto simp: piece_after_def rest_after_def split: option.splits)
qed

lemma second_split1:
  assumes "contains s sep"
  shows "second (split1 sep s) = Inr (rest_after sep s)"
  using assms by (auto simp: contains_def split1_def rest_after_def)

lemma extract_weight_balanced_total: "\<exists>w. extract_weight_balanced tf text = Inr w"
  by (simp add: extract_weight_balanced_def second_split)

lemma extract_weight_visualize_total: "\<exists>w. extract_weight_visualize tf text = Inr w"
  by (simp add: extract_weight_visualize_def second_split)

lemma extract_weight_updated_total: "\<exists>w. extract_weight_updated tf text = Inr w"
  by (simp add: extract_weight_updated_def second_split1 Let_def)

text \<open>
  C7 (as amended). Weight extraction looks for the text \<^verbatim>\<open>edge weight\<close> first and, only when
  it is absent, for \<^verbatim>\<open>cost\<close>. When a token is found the result is \<^verbatim>\<open>float\<close> of the stripped
  text after its first occurrence (up to the next occurrence of the token in
  \<^verbatim>\<open>balanced_failure_scenarios\<close> and \<^verbatim>\<open>visualize_with_depot_placement\<close>, up to the end of the
  stripped annotation in \<^verbatim>\<open>updated_failure_scenarios\<close>), and 1.0 with nothing printed when that
  text is not a number. When neither token is present the result is 1.0; only
  \<^verbatim>\<open>balanced_failure_scenarios\<close> prints a diagnostic then.
\<close>

theorem extract_weight_tokens:
  assumes "to_float ''1.0'' = Some 1"
  shows
   "(contains text ''edge weight'' \<longrightarrow>
       extract_weight_balanced to_float text =
         Inr (float_or_default to_float (strip (piece_after ''edge weight'' text)), []) \<and>
       extract_weight_visualize to_float text =
         Inr (float_or_default to_float (strip (piece_after ''edge weight'' text)), [])) \<and>
    (\<not> contains text ''edge weight'' \<and> contains text ''cost'' \<longrightarrow>
       extract_weight_balanced to_float text =
         Inr (float_or_default to_float (strip (piece_after ''cost'' text)), []) \<and>
       extract_weight_visualize to_float text =
         Inr (float_or_default to_float (strip (piece_after ''cost'' text)), [])) \<and>
    (\<not> contains text ''edge weight'' \<and> \<not> contains text ''cost'' \<longrightarrow>
       extract_weight_balanced to_float text =
         Inr (1, [''[!] Warning: No edge weight found, using default 1.0'']) \<and>
       extract_weight_visualize to_float text = Inr (1, [])) \<and>
    (contains (strip text) ''edge weight'' \<longrightarrow>
       extract_weight_updated to_float text =
         Inr (float_or_default to_float (strip (rest_after ''edge weight'' (strip text))), [])) \<and>
    (\<not> contains (strip text) ''edge weight'' \<and> contains (strip text) ''cost'' \<longrightarrow>
       extract_weight_updated to_float text =
         Inr (float_or_default to_float (strip (rest_after ''cost'' (strip text))), [])) \<and>
    (\<not> contains (strip text) ''edge weight'' \<and> \<not> contains (strip text) ''cost'' \<longrightarrow>
       extract_weight_updated to_float text = Inr (1, [])) \<and>
    (\<forall>t. float_or_default to_float t = (case to_float t of Some x \<Rightarrow> x | None \<Rightarrow> 1))"
  using assms
  by (simp add: extract_weight_balanced_def extract_weight_visualize_def extract_weight_updated_def
      second_split second_split1 Let_def float_or_default_def)

text \<open>
  C7 as stated fails: two of the three scripts return the default without a diagnostic,
  and an annotation with the word \<^verbatim>\<open>weight\<close> but not \<^verbatim>\<open>edge weight\<close> gets the default.
\<close>

theorem extract_weight_counterexample:
  "extract_weight_visualize decimal_float ''no annotation'' = Inr (1, []) \<and>
   extract_weight_updated decimal_float ''no annotation'' = Inr (1, []) \<and>
   extract_weight_balanced decimal_float ''weight 3.0'' =
     Inr (1, [''[!] Warning: No edge weight found, using default 1.0''])"
  by code_simp

theorem extract_weight_tokens_witness:
  "decimal_float ''1.0'' = Some 1 \<and>
   contains ''edge weight 3.0'' ''edge weight'' \<and>
   (extract_weight_balanced decimal_float ''edge weight 3.0'' =
      Inr (float_or_default decimal_float (strip (piece_after ''edge weight'' ''edge weight 3.0'')), []) \<and>
    extract_weight_visualize decimal_float ''edge weight 3.0'' =
      Inr (float_or_default decimal_float (strip (piece_after ''edge weight'' ''edge weight 3.0'')), [])) \<and>
   contains (strip ''edge weight 3.0'') ''edge weight'' \<and>
   extract_weight_updated decimal_float ''edge weight 3.0'' =
     Inr (float_or_default decimal_float (strip (rest_after ''edge weight'' (strip ''edge weight 3.0''))), []) \<and>
   (\<not> contains ''travel cost 2.5'' ''edge weight'' \<and> contains ''travel cost 2.5'' ''cost'') \<and>
   (extract_weight_balanced decimal_float ''travel cost 2.5'' =
      Inr (float_or_default decimal_float (strip (piece_after ''cost'' ''travel cost 2.5'')), []) \<and>
    extract_weight_visualize decimal_float ''travel cost 2.5'' =
      Inr (float_or_default decimal_float (strip (piece_after ''cost'' ''travel cost 2.5'')), [])) \<and>
   (\<not> contains ''no annotation'' ''edge weight'' \<and> \<not> contains ''no annotation'' ''cost'') \<and>
   (extract_weight_balanced decimal_float ''no annotation'' =
      Inr (1, [''[!] Warning: No edge weight found, using default 1.0'']) \<and>
    extract_weight_visualize decimal_float ''no annotation'' = Inr (1, []))"
proof -
  have f: "decimal_float ''1.0'' = Some 1" by code_simp
  have c1: "contains ''edge weight 3.0'' ''edge weight''" by code_simp
  have c1': "contains (strip ''edge weight 3.0'') ''edge weight''" by code_simp
  have c2: "\<not> contains ''travel cost 2.5'' ''edge weight'' \<and> contains ''travel cost 2.5'' ''cost''"
    by code_simp
  have c3: "\<not> contains ''no annotation'' ''edge weight'' \<and> \<not> contains ''no annotation'' ''cost''"
    by code_simp
  note t1 = extract_weight_tokens [of decimal_float "''edge weight 3.0''", OF f]
  note t2 = extract_weight_tokens [of decimal_float "''travel cost 2.5''", OF f]
  note t3 = extract_weight_tokens [of decimal_float "''no annotation''", OF f]
  from t1 [THEN conjunct1, THEN mp, OF c1]
       t1 [THEN conjunct2, THEN conjunct2, THEN conjunct2, THEN conjunct1, THEN mp, OF c1']
       t2 [THEN conjunct2, THEN conjunct1, THEN mp, OF c2]
       t3 [THEN conjunct2, THEN conjunct2, THEN conjunct1, THEN mp, OF c3]
       f c1 c1' c2 c3
  show ?thesis by blast
qed

lemma second_error: "second xs = Inl e \<Longrightarrow> e = IndexError"
  by (cases xs rule: second.cases) auto

lemma py_int_error: "py_int s = Inl e \<Longrightarrow> e = ValueError"
  by (auto simp: py_int_def split: list.splits if_splits option.splits)

lemma map_int_error: "map_int xs = Inl e \<Longrightarrow> e = ValueError"
  by (induction xs) (auto split: sum.splits dest: py_int_error)

lemma parse_edge_line_error:
  assumes "\<forall>t. \<exists>w. ew t = Inr w" and "parse_edge_line ew l = Inl e"
  shows "e = ValueError"
proof -
  have "ew t \<noteq> Inl x" for t x using assms(1) by (metis sum.distinct(1))
  with assms(2) show ?thesis
    by (auto simp: parse_edge_line_def split: list.splits sum.splits prod.splits)
qed

lemma parse_line_error:
  assumes "\<forall>t. \<exists>w. ew t = Inr w" and "parse_line ew tf st l = Inl e"
  shows "e = ValueError \<or> e = IndexError"
  using assms(2)
  by (auto simp: parse_line_def Let_def vertices_field_def capacity_field_def depots_field_def
      split: if_splits sum.splits option.splits
      dest: second_error py_int_error map_int_error parse_edge_line_error [OF assms(1)])

lemma parse_lines_error:
  assumes "\<forall>t. \<exists>w. ew t = Inr w"
  shows "parse_lines ew tf st ls = Inl e \<Longrightarrow> e = ValueError \<or> e = IndexError"
proof (induction ls arbitrary: st)
  case Nil
  then show ?case by simp
next
  case (Cons l ls)
  show ?case
  proof (cases "parse_line ew tf st l")
    case (Inl e')
    with Cons.prems have "e' = e" by simp
    with parse_line_error [OF assms Inl] show ?thesis by simp
  next
    case (Inr st1)
    with Cons.prems have "parse_lines ew tf st1 ls = Inl e" by simp
    from Cons.IH [OF this] show ?thesis .
  qed
qed

text \<open>
  C6. (\<^verbatim>\<open>extract_weight\<close> never raises; that is the hypothesis on \<open>ew\<close>.) When no line of the
  input is a \<^verbatim>\<open>VEHICLE CAPACITY\<close> line, \<^verbatim>\<open>parse_text_file\<close> fails, and it fails with
  \<^verbatim>\<open>'VEHICLE CAPACITY not found in file'\<close> whenever the loop over the lines completes. When
  there is such a line, that error is never raised, and whenever the loop completes the
  function returns the triple of the graph, the depots and the capacity parsed from the
  last \<^verbatim>\<open>VEHICLE CAPACITY\<close> line.
\<close>

theorem parse_capacity_field:
  assumes "\<forall>t. \<exists>w. ew t = Inr w"
  shows
  "(\<not> has_capacity_line lines \<longrightarrow>
      (\<exists>e. parse_text_file ew tf lines = Inl e) \<and>
      (\<forall>st. parse_lines ew tf initial_state lines = Inr st \<longrightarrow>
            parse_text_file ew tf lines = Inl CapacityNotFound)) \<and>
   (has_capacity_line lines \<longrightarrow>
      parse_text_file ew tf lines \<noteq> Inl CapacityNotFound \<and>
      (\<forall>st. parse_lines ew tf initial_state lines = Inr st \<longrightarrow>
         (\<exists>c. parse_text_file ew tf lines = Inr (p_graph st, p_depots st, c) \<and>
              capacity_field tf
                (strip (last (filter (\<lambda>l. startswith (strip l) ''VEHICLE CAPACITY'') lines))) = Inr c)))"
proof -
  let ?caps = "filter (\<lambda>l. startswith (strip l) ''VEHICLE CAPACITY'') lines"
  have hc: "has_capacity_line lines \<longleftrightarrow> ?caps \<noteq> []"
    by (auto simp: has_capacity_line_def list_ex_iff filter_empty_conv)
  show ?thesis
  proof (cases "parse_lines ew tf initial_state lines")
    case (Inl e)
    then have "parse_text_file ew tf lines = Inl e"
      by (simp add: parse_text_file_def)
    moreover from parse_lines_error [OF assms Inl] have "e \<noteq> CapacityNotFound" by auto
    ultimately show ?thesis using Inl by auto
  next
    case (Inr st)
    from parse_lines_capacity [OF Inr] hc Inr show ?thesis
      by (auto simp: parse_text_file_def initial_state_def split: option.splits)
  qed
qed

theorem parse_capacity_field_witness:
  "(\<forall>t. \<exists>w. extract_weight_balanced decimal_float t = Inr w) \<and>
   \<not> has_capacity_line example_no_capacity \<and>
   (\<exists>e. parse_text_file (extract_weight_balanced decimal_float) decimal_float example_no_capacity = Inl e) \<and>
   (\<exists>st. parse_lines (extract_weight_balanced decimal_float) decimal_float initial_state example_no_capacity = Inr st) \<and>
   parse_text_file (extract_weight_balanced decimal_float) decimal_float example_no_capacity = Inl CapacityNotFound \<and>
   has_capacity_line example_lines \<and>
   parse_text_file (extract_weight_balanced decimal_float) decimal_float example_lines \<noteq> Inl CapacityNotFound \<and>
   (\<exists>st c. parse_lines (extract_weight_balanced decimal_float) decimal_float initial_state example_lines = Inr st \<and>
      parse_text_file (extract_weight_balanced decimal_float) decimal_float example_lines =
        Inr (p_graph st, p_depots st, c) \<and>
      capacity_field decimal_float
        (strip (last (filter (\<lambda>l. startswith (strip l) ''VEHICLE CAPACITY'') example_lines))) = Inr c)"
proof -
  let ?ew = "extract_weight_balanced decimal_float"
  have tot: "\<forall>t. \<exists>w. ?ew t = Inr w" using extract_weight_balanced_total by blast
  note t0 = parse_capacity_field [OF tot, of example_no_capacity decimal_float]
  note t1 = parse_capacity_field [OF tot, of example_lines decimal_float]
  have n0: "\<not> has_capacity_line example_no_capacity" by code_simp
  have p0: "parse_lines ?ew decimal_float initial_state example_no_capacity =
      Inr \<lparr>p_graph = [(1, [(2, \<lparr>weight = 3, required = True, travel_time = None\<rparr>)]),
                       (2, [(1, \<lparr>weight = 3, required = True, travel_time = None\<rparr>)])],
           p_depots = [], p_capacity = None, p_section = Some RequiredEdges\<rparr>"
    by code_simp
  have h1: "has_capacity_line example_lines" by code_simp
  have p1: "parse_lines ?ew decimal_float initial_state example_lines =
      Inr \<lparr>p_graph =
             [(1, [(2, \<lparr>weight = 3, required = True, travel_time = None\<rparr>),
                   (3, \<lparr>weight = 2, required = False, travel_time = None\<rparr>)]),
              (2, [(1, \<lparr>weight = 3, required = True, travel_time = None\<rparr>),
                   (4, \<lparr>weight = 2, required = False, travel_time = None\<rparr>)]),
              (3, [(4, \<lparr>weight = 4, required = True, travel_time = None\<rparr>),
                   (1, \<lparr>weight = 2, required = False, travel_time = None\<rparr>)]),
              (4, [(3, \<lparr>weight = 4, required = True, travel_time = None\<rparr>),
                   (2, \<lparr>weight = 2, required = False, travel_time = None\<rparr>)])],
           p_depots = [1], p_capacity = Some 10, p_section = Some NonRequiredEdges\<rparr>"
    by code_simp
  from t0 [THEN conjunct1, THEN mp, OF n0] p0
  have a: "(\<exists>e. parse_text_file ?ew decimal_float example_no_capacity = Inl e)"
    and b: "parse_text_file ?ew decimal_float example_no_capacity = Inl CapacityNotFound"
    by blast+
  from t1 [THEN conjunct2, THEN mp, OF h1] p1
  have c: "parse_text_file ?ew decimal_float example_lines \<noteq> Inl CapacityNotFound"
    and d: "\<exists>st c. parse_lines ?ew decimal_float initial_state example_lines = Inr st \<and>
      parse_text_file ?ew decimal_float example_lines = Inr (p_graph st, p_depots st, c) \<and>
      capacity_field decimal_float
        (strip (last (filter (\<lambda>l. startswith (strip l) ''VEHICLE CAPACITY'') example_lines))) = Inr c"
    by blast+
  from tot n0 a p0 b h1 c d show ?thesis by blast
qed

subsection \<open>The edges of the parsed graph\<close>

lemma edge_data_add_node: "edge_data (add_node n G) u v = edge_data G u v"
  by (auto simp: add_node_def edge_data_def map_add_def nodes_def
      split: option.splits dest: map_of_SomeD)

lemma edge_data_add_nodes_from: "edge_data (add_nodes_from ns G) u v = edge_data G u v"
  unfolding add_nodes_from_def
  by (induction ns arbitrary: G) (auto simp: edge_data_add_node)

lemma edge_data_set_adj:
  "edge_data (set_adj a b d G) u v \<noteq> None \<Longrightarrow> (u = a \<and> v = b) \<or> edge_data G u v \<noteq> None"
  by (auto simp: edge_data_def set_adj_def map_of_map_entry update_conv'
      split: option.splits if_splits)

lemma edge_data_add_edge:
  assumes "edge_data (add_edge a b w r G) u v \<noteq> None"
  shows "(u = a \<and> v = b) \<or> (u = b \<and> v = a) \<or> edge_data G u v \<noteq> None"
proof -
  let ?G = "add_node b (add_node a G)"
  from assms obtain d where d: "edge_data (set_adj b a d (set_adj a b d ?G)) u v \<noteq> None"
    by (auto simp: add_edge_def Let_def)
  from edge_data_set_adj [OF d] show ?thesis
  proof
    assume "u = b \<and> v = a"
    then show ?thesis by simp
  next
    assume "edge_data (set_adj a b d ?G) u v \<noteq> None"
    from edge_data_set_adj [OF this] show ?thesis
      by (auto simp: edge_data_add_node)
  qed
qed

lemma parse_line_graph:
  assumes "parse_line ew tf st l = Inr st'"
  shows "p_graph st' = p_graph st \<or>
         (\<exists>ns. p_graph st' = add_nodes_from ns (p_graph st)) \<or>
         (\<exists>a b w r. parse_edge_line ew (strip l) = Inr (a, b, w) \<and>
                    p_graph st' = add_edge a b w r (p_graph st))"
  using assms
  by (auto simp: parse_line_def Let_def split: if_splits sum.splits prod.splits)

lemma parse_line_edges:
  assumes "parse_line ew tf st l = Inr st'" and "edge_data (p_graph st') u v \<noteq> None"
  shows "edge_data (p_graph st) u v \<noteq> None \<or>
         (\<exists>w. parse_edge_line ew (strip l) = Inr (u, v, w) \<or>
              parse_edge_line ew (strip l) = Inr (v, u, w))"
proof -
  from parse_line_graph [OF assms(1)] consider
      "p_graph st' = p_graph st"
    | ns where "p_graph st' = add_nodes_from ns (p_graph st)"
    | a b w r where "parse_edge_line ew (strip l) = Inr (a, b, w)"
        "p_graph st' = add_edge a b w r (p_graph st)"
    by blast
  then show ?thesis
  proof cases
    case 1
    with assms(2) show ?thesis by simp
  next
    case 2
    with assms(2) show ?thesis by (simp add: edge_data_add_nodes_from)
  next
    case 3
    from assms(2) have "edge_data (add_edge a b w r (p_graph st)) u v \<noteq> None"
      unfolding 3(2) .
    from edge_data_add_edge [OF this] 3(1) show ?thesis by auto
  qed
qed

lemma parse_lines_edges:
  "parse_lines ew tf st ls = Inr st' \<Longrightarrow> edge_data (p_graph st') u v \<noteq> None \<Longrightarrow>
   edge_data (p_graph st) u v \<noteq> None \<or>
   (\<exists>l \<in> set ls. \<exists>w. parse_edge_line ew (strip l) = Inr (u, v, w) \<or>
                      parse_edge_line ew (strip l) = Inr (v, u, w))"
proof (induction ls arbitrary: st)
  case Nil
  then show ?case by simp
next
  case (Cons l ls)
  from Cons.prems(1) obtain st1 where s1: "parse_line ew tf st l = Inr st1"
    and rest: "parse_lines ew tf st1 ls = Inr st'"
    by (auto split: sum.splits)
  from Cons.IH [OF rest Cons.prems(2)] show ?case
  proof
    assume "edge_data (p_graph st1) u v \<noteq> None"
    from parse_line_edges [OF s1 this] show ?thesis by auto
  next
    assume "\<exists>l \<in> set ls. \<exists>w. parse_edge_line ew (strip l) = Inr (u, v, w) \<or>
                      parse_edge_line ew (strip l) = Inr (v, u, w)"
    then show ?thesis by auto
  qed
qed

text \<open>
  C9 (as amended). Every edge of a graph produced by \<^verbatim>\<open>parse_text_file\<close> joins the two integers
  written on a line of the input that reads as an edge line. So its endpoints lie in
  \<open>1..N\<close> and differ whenever that is so for every edge line of the input; the parser
  itself checks neither.
\<close>

theorem parsed_edges_from_lines:
  assumes "parse_text_file ew tf lines = Inr (G, ds, c)" and "edge_data G u v \<noteq> None"
  shows "(\<exists>l \<in> set lines. \<exists>w. parse_edge_line ew (strip l) = Inr (u, v, w) \<or>
                           parse_edge_line ew (strip l) = Inr (v, u, w)) \<and>
         ((\<forall>l \<in> set lines. \<forall>a b w. parse_edge_line ew (strip l) = Inr (a, b, w) \<longrightarrow>
              1 \<le> a \<and> a \<le> N \<and> 1 \<le> b \<and> b \<le> N \<and> a \<noteq> b) \<longrightarrow>
          1 \<le> u \<and> u \<le> N \<and> 1 \<le> v \<and> v \<le> N \<and> u \<noteq> v)"
proof -
  from assms(1) obtain st where p: "parse_lines ew tf initial_state lines = Inr st"
    and g: "G = p_graph st"
    by (auto simp: parse_text_file_def split: sum.splits option.splits)
  have "edge_data (p_graph initial_state) u v = None"
    by (simp add: initial_state_def edge_data_def)
  with parse_lines_edges [OF p, of u v] assms(2) g
  have ex: "\<exists>l \<in> set lines. \<exists>w. parse_edge_line ew (strip l) = Inr (u, v, w) \<or>
                           parse_edge_line ew (strip l) = Inr (v, u, w)"
    by simp
  then show ?thesis by blast
qed

text \<open>
  C9 as stated fails: an input that declares two vertices and lists the edge \<open>(5,5)\<close> is
  accepted, and the graph has the self-loop at node 5.
\<close>

theorem parsed_self_loop_counterexample:
  "parse_text_file (extract_weight_balanced decimal_float) decimal_float example_self_loop =
     Inr ([(1, []), (2, []), (5, [(5, \<lparr>weight = 1, required = True, travel_time = None\<rparr>)])], [], 10)"
  by code_simp

theorem parsed_edges_from_lines_witness:
  "parse_text_file (extract_weight_balanced decimal_float) decimal_float example_small =
     Inr (example_small_graph, [], 10) \<and>
   edge_data example_small_graph 1 2 \<noteq> None \<and>
   (\<exists>l \<in> set example_small. \<exists>w.
       parse_edge_line (extract_weight_balanced decimal_float) (strip l) = Inr (1, 2, w) \<or>
       parse_edge_line (extract_weight_balanced decimal_float) (strip l) = Inr (2, 1, w)) \<and>
   ((1::int) \<le> 1 \<and> (1::int) \<le> 2 \<and> (1::int) \<le> 2 \<and> (2::int) \<le> 2 \<and> (1::int) \<noteq> 2)"
proof -
  let ?ew = "extract_weight_balanced decimal_float"
  have p: "parse_text_file ?ew decimal_float example_small = Inr (example_small_graph, [], 10)"
    unfolding example_small_graph_def by code_simp
  have e: "edge_data example_small_graph 1 2 \<noteq> None" by code_simp
  have l1: "parse_edge_line ?ew (strip (text_line ''NUMBER OF VERTICES: 2'')) = Inl ValueError"
    by code_simp
  have l2: "parse_edge_line ?ew (strip (text_line ''VEHICLE CAPACITY: 10'')) = Inl ValueError"
    by code_simp
  have l3: "parse_edge_line ?ew (strip (text_line ''LIST_REQUIRED_EDGES:'')) = Inl ValueError"
    by code_simp
  have l4: "parse_edge_line ?ew (strip (text_line ''(1,2) edge weight 3.0'')) = Inr (1, 2, 3)"
    by code_simp
  have r: "\<forall>l \<in> set example_small. \<forall>a b w. parse_edge_line ?ew (strip l) = Inr (a, b, w) \<longrightarrow>
              1 \<le> a \<and> a \<le> 2 \<and> 1 \<le> b \<and> b \<le> 2 \<and> a \<noteq> b"
    by (simp add: example_small_def l1 l2 l3 l4)
  note t = parsed_edges_from_lines [OF p e, of 2]
  from t [THEN conjunct1] t [THEN conjunct2, THEN mp, OF r] p e show ?thesis by blast
qed

section \<open>Parsing a rewritten file\<close>

subsection \<open>Integers and lines as text\<close>






























subsection \<open>The lines that are dropped and the lines that are added\<close>








end
